theory Spec2Isabelle
  imports Main "HOL-Library.Word" "HOL-Library.Monad_Syntax"
begin

unbundle bit_operations_syntax

section \<open>Machine integers of the C sources\<close>

text \<open>
  \<^verbatim>\<open>guint8\<close>, \<^verbatim>\<open>guint\<close> and \<^verbatim>\<open>guint64\<close> are unsigned and wrap around: they are words.
  \<^verbatim>\<open>gint\<close>/\<^verbatim>\<open>int\<close> is the signed 32-bit integer. Signed overflow is undefined in C, so a
  signed value is an \<open>int\<close> and every signed operation whose result may leave the range
  goes through \<open>gint_of\<close>, which has no result (\<open>None\<close>) outside \<open>INT_MIN..INT_MAX\<close>.
  \<open>None\<close> is the outcome of every undefined behaviour of the sources: signed overflow,
  division by zero, an access outside a buffer, a NULL dereference.
\<close>

type_synonym guint8 = "8 word"
type_synonym guint = "32 word"
type_synonym guint64 = "64 word"

definition INT_MAX :: int where
  "INT_MAX = 2147483647"

definition INT_MIN :: int where
  "INT_MIN = - 2147483648"

definition gint_of :: "int \<Rightarrow> int option" where
  "gint_of x = (if INT_MIN \<le> x \<and> x \<le> INT_MAX then Some x else None)"

text \<open>C's \<^verbatim>\<open>/\<close> on signed integers truncates towards zero.\<close>

definition c_div :: "int \<Rightarrow> int \<Rightarrow> int" where
  "c_div a b = sgn a * sgn b * (\<bar>a\<bar> div \<bar>b\<bar>)"

text \<open>Conversion of a 64-bit unsigned value to \<^verbatim>\<open>int\<close>: the low 32 bits, read signed.\<close>

definition guint64_to_gint :: "guint64 \<Rightarrow> int" where
  "guint64_to_gint x = sint (ucast x :: 32 word)"


section \<open>Quality metrics (fp-image.c)\<close>

subsection \<open>fpi_std_sq_dev\<close>

text \<open>
  \<^verbatim>\<open>for (i = 0; i < size; i++) mean += buf[i];\<close>
  The buffer is the list of its bytes; reading past its end is undefined. The counter
  starts at 0 and stays below \<^verbatim>\<open>size\<close>, so its increment cannot overflow.
\<close>

function std_sq_dev_sum :: "guint8 list \<Rightarrow> int \<Rightarrow> nat \<Rightarrow> guint64 \<Rightarrow> guint64 option" where
  "std_sq_dev_sum buf sz i mean =
     (if int i < sz
      then (if i < length buf
            then std_sq_dev_sum buf sz (Suc i) (mean + ucast (buf ! i))
            else None)
      else Some mean)"
  by pat_completeness auto
termination
  by (relation "measure (\<lambda>(buf, sz, i, mean). nat sz - i)") auto

text \<open>
  \<^verbatim>\<open>int dev = (int) buf[i] - mean; res += dev * dev;\<close>
  The subtraction is done in \<^verbatim>\<open>guint64\<close> (it wraps), its result is converted to \<^verbatim>\<open>int\<close>;
  the product is an \<^verbatim>\<open>int\<close> product, converted to \<^verbatim>\<open>guint64\<close> for the sum.
\<close>

function std_sq_dev_res :: "guint8 list \<Rightarrow> int \<Rightarrow> guint64 \<Rightarrow> nat \<Rightarrow> guint64 \<Rightarrow> guint64 option" where
  "std_sq_dev_res buf sz mean i res =
     (if int i < sz
      then (if i < length buf
            then do {
              let dev = guint64_to_gint (ucast (buf ! i) - mean);
              sq \<leftarrow> gint_of (dev * dev);
              std_sq_dev_res buf sz mean (Suc i) (res + word_of_int sq)
            }
            else None)
      else Some res)"
  by pat_completeness auto
termination
  by (relation "measure (\<lambda>(buf, sz, mean, i, res). nat sz - i)") auto

definition fpi_std_sq_dev :: "guint8 list \<Rightarrow> int \<Rightarrow> int option" where
  "fpi_std_sq_dev buf sz = do {
     sum \<leftarrow> std_sq_dev_sum buf sz 0 0;
     if sz = 0 then None
     else do {
       let mean = sum div word_of_int sz;
       res \<leftarrow> std_sq_dev_res buf sz mean 0 0;
       Some (guint64_to_gint (res div word_of_int sz))
     }
   }"

text \<open>The formula of the specification, on unbounded integers.\<close>

definition mean_of :: "guint8 list \<Rightarrow> int" where
  "mean_of buf = (\<Sum>b\<leftarrow>buf. uint b) div int (length buf)"

definition squared_deviation :: "guint8 list \<Rightarrow> int" where
  "squared_deviation buf =
     (\<Sum>b\<leftarrow>buf. (uint b - mean_of buf)\<^sup>2) div int (length buf)"


subsection \<open>fpi_mean_sq_diff_norm\<close>

text \<open>
  \<^verbatim>\<open>int res = 0; ... int dev = (int) buf1[i] - (int) buf2[i]; res += dev * dev;\<close>
  Here the accumulator is a signed \<^verbatim>\<open>int\<close>: the sum has no defined value once it
  exceeds \<open>INT_MAX\<close>.
\<close>

function mean_sq_diff_sum :: "guint8 list \<Rightarrow> guint8 list \<Rightarrow> int \<Rightarrow> nat \<Rightarrow> int \<Rightarrow> int option" where
  "mean_sq_diff_sum buf1 buf2 sz i res =
     (if int i < sz
      then (if i < length buf1 \<and> i < length buf2
            then do {
              let dev = uint (buf1 ! i) - uint (buf2 ! i);
              res' \<leftarrow> gint_of (res + dev * dev);
              mean_sq_diff_sum buf1 buf2 sz (Suc i) res'
            }
            else None)
      else Some res)"
  by pat_completeness auto
termination
  by (relation "measure (\<lambda>(buf1, buf2, sz, i, res). nat sz - i)") auto

definition fpi_mean_sq_diff_norm :: "guint8 list \<Rightarrow> guint8 list \<Rightarrow> int \<Rightarrow> int option" where
  "fpi_mean_sq_diff_norm buf1 buf2 sz = do {
     res \<leftarrow> mean_sq_diff_sum buf1 buf2 sz 0 0;
     if sz = 0 then None else gint_of (c_div res sz)
   }"

text \<open>The formula of the specification, on unbounded integers.\<close>

definition sq_diff_total :: "guint8 list \<Rightarrow> guint8 list \<Rightarrow> nat \<Rightarrow> int" where
  "sq_diff_total buf1 buf2 n = (\<Sum>i<n. (uint (buf1 ! i) - uint (buf2 ! i))\<^sup>2)"

definition mean_square_diff :: "guint8 list \<Rightarrow> guint8 list \<Rightarrow> nat \<Rightarrow> int" where
  "mean_square_diff buf1 buf2 n = sq_diff_total buf1 buf2 n div int n"

text \<open>The sum of the squared differences from index \<open>i\<close> on: what the loop still adds.\<close>

definition sq_diff_from :: "guint8 list \<Rightarrow> guint8 list \<Rightarrow> nat \<Rightarrow> nat \<Rightarrow> int" where
  "sq_diff_from buf1 buf2 i n = (\<Sum>j = i..<n. (uint (buf1 ! j) - uint (buf2 ! j))\<^sup>2)"


section \<open>Image normalisation (fp-image.c)\<close>

subsection \<open>memcpy on a buffer\<close>

text \<open>
  A buffer is the list of the bytes of its allocation. \<^verbatim>\<open>memcpy\<close> reads or writes \<open>n\<close>
  bytes at an offset; outside the allocation it is undefined, and so is a copy between
  two overlapping ranges of one buffer.
\<close>

definition memcpy_read :: "guint8 list \<Rightarrow> int \<Rightarrow> int \<Rightarrow> guint8 list option" where
  "memcpy_read buf off n =
     (if 0 \<le> off \<and> 0 \<le> n \<and> off + n \<le> int (length buf)
      then Some (take (nat n) (drop (nat off) buf)) else None)"

definition memcpy_write :: "guint8 list \<Rightarrow> int \<Rightarrow> guint8 list \<Rightarrow> guint8 list option" where
  "memcpy_write buf off src =
     (if 0 \<le> off \<and> off + int (length src) \<le> int (length buf)
      then Some (take (nat off) buf @ src @ drop (nat off + length src) buf) else None)"

definition memcpy_within :: "guint8 list \<Rightarrow> int \<Rightarrow> int \<Rightarrow> int \<Rightarrow> guint8 list option" where
  "memcpy_within buf dst src n =
     (if dst + n \<le> src \<or> src + n \<le> dst
      then do { bytes \<leftarrow> memcpy_read buf src n; memcpy_write buf dst bytes }
      else None)"

subsection \<open>hflip\<close>

text \<open>
  \<^verbatim>\<open>for (j = 0; j < width; j++) data[offset + j] = rowbuf[width - j - 1];\<close>
\<close>

function hflip_row :: "guint8 list \<Rightarrow> guint8 list \<Rightarrow> int \<Rightarrow> int \<Rightarrow> nat \<Rightarrow> guint8 list option" where
  "hflip_row data rowbuf offset width j =
     (if int j < width
      then do {
        k \<leftarrow> gint_of (offset + int j);
        if 0 \<le> k \<and> k < int (length data) \<and> nat (width - int j - 1) < length rowbuf
        then hflip_row (data[nat k := rowbuf ! nat (width - int j - 1)]) rowbuf offset width (Suc j)
        else None
      }
      else Some data)"
  by pat_completeness auto
termination
  by (relation "measure (\<lambda>(data, rowbuf, offset, width, j). nat width - j)") auto

text \<open>
  \<^verbatim>\<open>for (i = 0; i < height; i++) { int offset = i * width; memcpy (rowbuf, data + offset, width); ... }\<close>
\<close>

function hflip_rows :: "guint8 list \<Rightarrow> int \<Rightarrow> int \<Rightarrow> nat \<Rightarrow> guint8 list option" where
  "hflip_rows data width height i =
     (if int i < height
      then do {
        offset \<leftarrow> gint_of (int i * width);
        rowbuf \<leftarrow> memcpy_read data offset width;
        data' \<leftarrow> hflip_row data rowbuf offset width 0;
        hflip_rows data' width height (Suc i)
      }
      else Some data)"
  by pat_completeness auto
termination
  by (relation "measure (\<lambda>(data, width, height, i). nat height - i)") auto

text \<open>\<^verbatim>\<open>unsigned char rowbuf[width];\<close> has no meaning for a negative width.\<close>

definition hflip :: "guint8 list \<Rightarrow> int \<Rightarrow> int \<Rightarrow> guint8 list option" where
  "hflip data width height =
     (if width < 0 then None else hflip_rows data width height 0)"

subsection \<open>vflip\<close>

text \<open>
  \<^verbatim>\<open>for (i = 0; i < height / 2; i++)\<close>: the rows \<open>i\<close> and \<open>height - 1 - i\<close> are exchanged
  through \<^verbatim>\<open>rowbuf\<close>, with \<^verbatim>\<open>swap_offset = data_len - (width * (i + 1))\<close>.
\<close>

function vflip_rows :: "guint8 list \<Rightarrow> int \<Rightarrow> int \<Rightarrow> int \<Rightarrow> nat \<Rightarrow> guint8 list option" where
  "vflip_rows data width height data_len i =
     (if int i < c_div height 2
      then do {
        offset \<leftarrow> gint_of (int i * width);
        below \<leftarrow> gint_of (width * (int i + 1));
        swap_offset \<leftarrow> gint_of (data_len - below);
        rowbuf \<leftarrow> memcpy_read data offset width;
        data1 \<leftarrow> memcpy_within data offset swap_offset width;
        data2 \<leftarrow> memcpy_write data1 swap_offset rowbuf;
        vflip_rows data2 width height data_len (Suc i)
      }
      else Some data)"
  by pat_completeness auto
termination
  by (relation "measure (\<lambda>(data, width, height, data_len, i). nat (c_div height 2) - i)") auto

text \<open>\<^verbatim>\<open>int data_len = width * height;\<close> is a signed product.\<close>

definition vflip :: "guint8 list \<Rightarrow> int \<Rightarrow> int \<Rightarrow> guint8 list option" where
  "vflip data width height = do {
     data_len \<leftarrow> gint_of (width * height);
     if width < 0 then None else vflip_rows data width height data_len 0
   }"

subsection \<open>invert_colors\<close>

text \<open>
  \<^verbatim>\<open>for (i = 0; i < data_len; i++) data[i] = 0xff - data[i];\<close>
  The difference is an \<^verbatim>\<open>int\<close>, stored as a byte.
\<close>

function invert_loop :: "guint8 list \<Rightarrow> int \<Rightarrow> nat \<Rightarrow> guint8 list option" where
  "invert_loop data data_len i =
     (if int i < data_len
      then (if i < length data
            then invert_loop (data[i := word_of_int (255 - uint (data ! i))]) data_len (Suc i)
            else None)
      else Some data)"
  by pat_completeness auto
termination
  by (relation "measure (\<lambda>(data, data_len, i). nat data_len - i)") auto

definition invert_colors :: "guint8 list \<Rightarrow> int \<Rightarrow> int \<Rightarrow> guint8 list option" where
  "invert_colors data width height = do {
     data_len \<leftarrow> gint_of (width * height);
     invert_loop data data_len 0
   }"

subsection \<open>The three operations as the specification words them\<close>

text \<open>
  The rows of a \<open>w\<close> by \<open>h\<close> image; a horizontal flip reverses each row, a vertical flip
  reverses the order of the rows, the inversion replaces every byte \<open>v\<close> by \<open>255 - v\<close>.
\<close>

fun rows_of :: "nat \<Rightarrow> nat \<Rightarrow> 'a list \<Rightarrow> 'a list list" where
  "rows_of w 0 xs = []"
| "rows_of w (Suc h) xs = take w xs # rows_of w h (drop w xs)"

definition flip_horizontal :: "nat \<Rightarrow> nat \<Rightarrow> 'a list \<Rightarrow> 'a list" where
  "flip_horizontal w h xs = concat (map rev (rows_of w h xs))"

definition flip_vertical :: "nat \<Rightarrow> nat \<Rightarrow> 'a list \<Rightarrow> 'a list" where
  "flip_vertical w h xs = concat (rev (rows_of w h xs))"

definition invert_bytes :: "guint8 list \<Rightarrow> guint8 list" where
  "invert_bytes xs = map (\<lambda>v. 255 - v) xs"


section \<open>Images and the minutiae detection task (fp-image.c)\<close>

subsection \<open>The heap of byte buffers\<close>

text \<open>
  The raw buffer of an image and the copy held by a detection task are distinct
  allocations that the code reaches through pointers, so the buffers live in a heap: the
  list of all blocks ever allocated, a freed block being \<open>None\<close>. An address is an index
  of that list; a fresh block is appended, so its address differs from every earlier one.
  \<^verbatim>\<open>NULL\<close> is \<open>None\<close>; no byte can be read or written through it.
\<close>

type_synonym addr = nat
type_synonym heap = "guint8 list option list"

definition block_at :: "heap \<Rightarrow> addr \<Rightarrow> guint8 list option" where
  "block_at h a = (if a < length h then h ! a else None)"

definition deref :: "heap \<Rightarrow> addr option \<Rightarrow> guint8 list option" where
  "deref h p = (case p of None \<Rightarrow> Some [] | Some a \<Rightarrow> block_at h a)"

definition store :: "heap \<Rightarrow> addr option \<Rightarrow> guint8 list \<Rightarrow> heap option" where
  "store h p bytes =
     (case p of
        None \<Rightarrow> (if bytes = [] then Some h else None)
      | Some a \<Rightarrow> (case block_at h a of None \<Rightarrow> None | Some old \<Rightarrow> Some (h[a := Some bytes])))"

text \<open>A function that works in place on the bytes behind a pointer.\<close>

definition on_buffer ::
  "(guint8 list \<Rightarrow> guint8 list option) \<Rightarrow> heap \<Rightarrow> addr option \<Rightarrow> heap option" where
  "on_buffer f h p = do { bytes \<leftarrow> deref h p; bytes' \<leftarrow> f bytes; store h p bytes' }"

text \<open>
  \<^verbatim>\<open>g_malloc0\<close> gives zeroed bytes, \<^verbatim>\<open>g_malloc\<close> indeterminate ones (its only caller
  overwrites all of them before any read; they are zero here); both return \<^verbatim>\<open>NULL\<close> for
  a size of 0. \<^verbatim>\<open>g_free (NULL)\<close> does nothing; freeing anything but a live block is
  undefined.
\<close>

definition g_malloc0 :: "heap \<Rightarrow> nat \<Rightarrow> heap \<times> addr option" where
  "g_malloc0 h n = (if n = 0 then (h, None) else (h @ [Some (replicate n 0)], Some (length h)))"

definition g_malloc :: "heap \<Rightarrow> nat \<Rightarrow> heap \<times> addr option" where
  "g_malloc h n = g_malloc0 h n"

definition g_free :: "heap \<Rightarrow> addr option \<Rightarrow> heap option" where
  "g_free h p =
     (case p of
        None \<Rightarrow> Some h
      | Some a \<Rightarrow> (case block_at h a of None \<Rightarrow> None | Some old \<Rightarrow> Some (h[a := None])))"

subsection \<open>FpImage\<close>

text \<open>
  The fields of \<^verbatim>\<open>struct _FpImage\<close> that fp-image.c uses. \<^verbatim>\<open>width\<close> and \<^verbatim>\<open>height\<close> are
  \<^verbatim>\<open>guint\<close> (they are read with \<^verbatim>\<open>g_value_get_uint\<close>). A \<^verbatim>\<open>gdouble\<close> is only ever copied,
  never computed with: it is its 64 bits. A minutia is its \<^verbatim>\<open>x\<close> and \<^verbatim>\<open>y\<close>; the
  \<^verbatim>\<open>GPtrArray\<close> of an image is the list of its elements.
\<close>

type_synonym gdouble = "64 word"
type_synonym fp_minutia = "int \<times> int"

record FpImage =
  width :: guint
  height :: guint
  ppmm :: gdouble
  flags :: guint
  data :: "addr option"
  binarized :: "addr option"
  minutiae :: "fp_minutia list option"

text \<open>
  \<^verbatim>\<open>fp_image_class_init\<close>: both properties are unsigned, from 0 to \<^verbatim>\<open>G_MAXUINT16\<close> (GLib's
  \<open>2 ^ 16 - 1\<close>), default 0, with the flags
  \<^verbatim>\<open>G_PARAM_STATIC_STRINGS | G_PARAM_READWRITE | G_PARAM_CONSTRUCT_ONLY\<close>: construct-only, and
  without \<^verbatim>\<open>G_PARAM_LAX_VALIDATION\<close>.
\<close>

datatype prop_id = PROP_0 | PROP_WIDTH | PROP_HEIGHT

record GParamSpecUInt =
  minimum :: guint
  maximum :: guint
  default_value :: guint
  construct_only :: bool
  lax_validation :: bool

definition G_MAXUINT16 :: guint where
  "G_MAXUINT16 = 0xffff"

fun properties :: "prop_id \<Rightarrow> GParamSpecUInt option" where
  "properties PROP_0 = None"
| "properties PROP_WIDTH =
     Some \<lparr>minimum = 0, maximum = G_MAXUINT16, default_value = 0, construct_only = True,
           lax_validation = False\<rparr>"
| "properties PROP_HEIGHT =
     Some \<lparr>minimum = 0, maximum = G_MAXUINT16, default_value = 0, construct_only = True,
           lax_validation = False\<rparr>"

text \<open>
  A value lies in the range of a property when it is between the minimum and the maximum
  of the property's \<^verbatim>\<open>GParamSpec\<close>.
\<close>

definition param_in_range :: "prop_id \<Rightarrow> guint \<Rightarrow> bool" where
  "param_in_range p v =
     (case properties p of None \<Rightarrow> False | Some ps \<Rightarrow> minimum ps \<le> v \<and> v \<le> maximum ps)"

fun fp_image_set_property :: "FpImage \<Rightarrow> prop_id \<Rightarrow> guint \<Rightarrow> FpImage" where
  "fp_image_set_property self PROP_WIDTH v = self\<lparr>width := v\<rparr>"
| "fp_image_set_property self PROP_HEIGHT v = self\<lparr>height := v\<rparr>"
| "fp_image_set_property self PROP_0 v = self"

text \<open>
  \<^verbatim>\<open>fp_image_set_property\<close> is the class's \<^verbatim>\<open>set_property\<close>; callers reach it through
  GObject only. GObject's \<^verbatim>\<open>object_set_property\<close> first validates the value against the
  \<^verbatim>\<open>GParamSpec\<close>: \<^verbatim>\<open>g_param_value_validate\<close> clamps an unsigned value into the range
  (\<^verbatim>\<open>CLAMP (v, minimum, maximum)\<close>) and tells whether that changed it. A value that had to
  be changed is refused with a warning and \<^verbatim>\<open>set_property\<close> is not called, unless the
  property has \<^verbatim>\<open>G_PARAM_LAX_VALIDATION\<close>. On a constructed object
  \<^verbatim>\<open>g_object_set_property\<close> refuses every property that is construct-only.
\<close>

definition g_param_value_validate :: "GParamSpecUInt \<Rightarrow> guint \<Rightarrow> guint \<times> bool" where
  "g_param_value_validate ps v =
     (let v' = (if maximum ps < v then maximum ps else if v < minimum ps then minimum ps else v)
      in (v', v' \<noteq> v))"

definition object_set_property :: "FpImage \<Rightarrow> prop_id \<Rightarrow> guint \<Rightarrow> FpImage" where
  "object_set_property self p v =
     (case properties p of
        None \<Rightarrow> self
      | Some ps \<Rightarrow>
          (let (v', changed) = g_param_value_validate ps v
           in if changed \<and> \<not> lax_validation ps then self else fp_image_set_property self p v'))"

definition g_object_set_property :: "FpImage \<Rightarrow> prop_id \<Rightarrow> guint \<Rightarrow> FpImage" where
  "g_object_set_property self p v =
     (case properties p of
        None \<Rightarrow> self
      | Some ps \<Rightarrow> if construct_only ps then self else object_set_property self p v)"

text \<open>The instance before construction: GObject zeroes it, \<^verbatim>\<open>fp_image_init\<close> is empty.\<close>

definition fp_image_init :: FpImage where
  "fp_image_init =
     \<lparr>width = 0, height = 0, ppmm = 0, flags = 0, data = None, binarized = None,
      minutiae = None\<rparr>"

text \<open>
  \<^verbatim>\<open>self->data = g_malloc0 (self->width * self->height);\<close>
  The product is a \<^verbatim>\<open>guint\<close> product (it wraps at \<open>2 ^ 32\<close>), converted to \<^verbatim>\<open>gsize\<close>.
\<close>

definition fp_image_constructed :: "heap \<Rightarrow> FpImage \<Rightarrow> heap \<times> FpImage" where
  "fp_image_constructed h self =
     (let (h', p) = g_malloc0 h (unat (width self * height self)) in (h', self\<lparr>data := p\<rparr>))"

text \<open>
  \<^verbatim>\<open>fp_image_new\<close> is \<^verbatim>\<open>g_object_new (FP_TYPE_IMAGE, "width", width, "height", height, NULL)\<close>:
  GObject creates the zeroed instance, sets the two construct properties through
  \<^verbatim>\<open>object_set_property\<close>, then calls \<^verbatim>\<open>constructed\<close>. The two \<^verbatim>\<open>gint\<close> arguments are
  collected into \<^verbatim>\<open>guint\<close> values of the same 32 bits, so a negative argument arrives as
  a value above \<open>2 ^ 31\<close>.
\<close>

definition fp_image_new :: "heap \<Rightarrow> guint \<Rightarrow> guint \<Rightarrow> heap \<times> FpImage" where
  "fp_image_new h w ht =
     fp_image_constructed h
       (object_set_property (object_set_property fp_image_init PROP_WIDTH w) PROP_HEIGHT ht)"

definition fp_image_get_width :: "FpImage \<Rightarrow> guint" where
  "fp_image_get_width self = width self"

definition fp_image_get_height :: "FpImage \<Rightarrow> guint" where
  "fp_image_get_height self = height self"

text \<open>\<^verbatim>\<open>fp_image_get_data\<close> returns the pointer and, in \<^verbatim>\<open>*len\<close>, \<^verbatim>\<open>self->width * self->height\<close>.\<close>

definition fp_image_get_data :: "FpImage \<Rightarrow> addr option \<times> nat" where
  "fp_image_get_data self = (data self, unat (width self * height self))"

definition fp_image_get_minutiae :: "FpImage \<Rightarrow> fp_minutia list option" where
  "fp_image_get_minutiae self = minutiae self"

subsection \<open>The detection task\<close>

text \<open>
  \<^verbatim>\<open>DetectMinutiaeData\<close>, the work item of one detection. \<^verbatim>\<open>struct fp_minutiae\<close> is a count
  and an array. The user's callback (\<^verbatim>\<open>user_cb\<close>) runs after everything modelled here and
  is not part of the sources.
\<close>

record fp_minutiae =
  m_num :: int
  m_list :: "fp_minutia list"

record DetectMinutiaeData =
  d_minutiae :: "fp_minutiae option"
  d_width :: int
  d_height :: int
  d_ppmm :: gdouble
  d_flags :: guint
  d_image :: "addr option"
  d_binarized :: "addr option"

text \<open>
  The three normalisation flags are declared in fpi-image.h, which is not among the
  sources: their bit masks are parameters.
\<close>

record FpiImageFlags =
  FPI_IMAGE_V_FLIPPED :: guint
  FPI_IMAGE_H_FLIPPED :: guint
  FPI_IMAGE_COLORS_INVERTED :: guint

text \<open>
  \<^verbatim>\<open>get_minutiae\<close> is the external feature extraction: from the image bytes, the
  dimensions and the resolution it gives a status, and may give a binarized buffer and a
  minutiae list. It is a parameter.
\<close>

record extraction =
  e_status :: int
  e_bdata :: "guint8 list option"
  e_minutiae :: "fp_minutiae option"

type_synonym get_minutiae_fn = "guint8 list \<Rightarrow> int \<Rightarrow> int \<Rightarrow> gdouble \<Rightarrow> extraction"

text \<open>What the thread function returns through the task.\<close>

datatype task_result = G_IO_ERROR_FAILED int | Returned_TRUE

text \<open>
  \<^verbatim>\<open>fp_image_detect_minutiae\<close>: the work item gets a fresh copy of the raw buffer and the
  values of the flags, the dimensions (\<^verbatim>\<open>guint\<close> to \<^verbatim>\<open>gint\<close>) and the resolution.
\<close>

definition fp_image_detect_minutiae :: "heap \<Rightarrow> FpImage \<Rightarrow> (heap \<times> DetectMinutiaeData) option" where
  "fp_image_detect_minutiae h self = do {
     let n = unat (width self * height self);
     let (h1, p) = g_malloc h n;
     src \<leftarrow> deref h (data self);
     bytes \<leftarrow> memcpy_read src 0 (int n);
     dst \<leftarrow> deref h1 p;
     dst' \<leftarrow> memcpy_write dst 0 bytes;
     h2 \<leftarrow> store h1 p dst';
     Some (h2, \<lparr>d_minutiae = None, d_width = sint (width self), d_height = sint (height self),
                d_ppmm = ppmm self, d_flags = flags self, d_image = p, d_binarized = None\<rparr>)
   }"

text \<open>The first part of \<^verbatim>\<open>fp_image_detect_minutiae_thread_func\<close>: "Normalize the image first".\<close>

definition normalize_image :: "FpiImageFlags \<Rightarrow> heap \<Rightarrow> DetectMinutiaeData \<Rightarrow> (heap \<times> DetectMinutiaeData) option" where
  "normalize_image fl h d = do {
     h1 \<leftarrow> (if d_flags d AND FPI_IMAGE_H_FLIPPED fl \<noteq> 0
            then on_buffer (\<lambda>b. hflip b (d_width d) (d_height d)) h (d_image d) else Some h);
     h2 \<leftarrow> (if d_flags d AND FPI_IMAGE_V_FLIPPED fl \<noteq> 0
            then on_buffer (\<lambda>b. vflip b (d_width d) (d_height d)) h1 (d_image d) else Some h1);
     h3 \<leftarrow> (if d_flags d AND FPI_IMAGE_COLORS_INVERTED fl \<noteq> 0
            then on_buffer (\<lambda>b. invert_colors b (d_width d) (d_height d)) h2 (d_image d) else Some h2);
     Some (h3, d\<lparr>d_flags := d_flags d AND
                   NOT (FPI_IMAGE_H_FLIPPED fl OR FPI_IMAGE_V_FLIPPED fl OR FPI_IMAGE_COLORS_INVERTED fl)\<rparr>)
   }"

text \<open>
  The rest of the thread function: the extraction, whose outputs go into the work item
  whatever the status, then the task's result.
\<close>

definition fp_image_detect_minutiae_thread_func ::
  "FpiImageFlags \<Rightarrow> get_minutiae_fn \<Rightarrow> heap \<Rightarrow> DetectMinutiaeData \<Rightarrow>
     (heap \<times> DetectMinutiaeData \<times> task_result) option" where
  "fp_image_detect_minutiae_thread_func fl get_minutiae h d = do {
     (h1, d1) \<leftarrow> normalize_image fl h d;
     img \<leftarrow> deref h1 (d_image d1);
     let e = get_minutiae img (d_width d1) (d_height d1) (d_ppmm d1);
     let (h2, bdata) = (case e_bdata e of None \<Rightarrow> (h1, None)
                        | Some b \<Rightarrow> (h1 @ [Some b], Some (length h1)));
     let d2 = d1\<lparr>d_binarized := bdata, d_minutiae := e_minutiae e\<rparr>;
     Some (h2, d2, if e_status e \<noteq> 0 then G_IO_ERROR_FAILED (e_status e) else Returned_TRUE)
   }"

text \<open>
  \<^verbatim>\<open>for (i = 0; i < data->minutiae->num; i++) g_ptr_array_add (image->minutiae, ...list[i]);\<close>
\<close>

function steal_minutiae :: "fp_minutia list \<Rightarrow> int \<Rightarrow> nat \<Rightarrow> fp_minutia list \<Rightarrow> fp_minutia list option" where
  "steal_minutiae lst num i arr =
     (if int i < num
      then (if i < length lst then steal_minutiae lst num (Suc i) (arr @ [lst ! i]) else None)
      else Some arr)"
  by pat_completeness auto
termination
  by (relation "measure (\<lambda>(lst, num, i, arr). nat num - i)") auto

text \<open>
  \<^verbatim>\<open>fp_image_detect_minutiae_cb\<close>. The cancellable is \<^verbatim>\<open>NULL\<close> (\<open>None\<close>) or holds whether it
  is cancelled when the callback runs. The test is
  \<^verbatim>\<open>if (!cancellable || !g_cancellable_is_cancelled (cancellable))\<close>: nothing else decides
  whether the results are committed. \<^verbatim>\<open>data->minutiae->num\<close> dereferences the list of
  the work item; a negative count asks \<^verbatim>\<open>g_ptr_array_new_full\<close> for more than it can
  reserve.
\<close>

definition fp_image_detect_minutiae_cb ::
  "heap \<Rightarrow> FpImage \<Rightarrow> DetectMinutiaeData \<Rightarrow> bool option \<Rightarrow>
     (heap \<times> FpImage \<times> DetectMinutiaeData) option" where
  "fp_image_detect_minutiae_cb h img d cancellable =
     (if (case cancellable of None \<Rightarrow> True | Some cancelled \<Rightarrow> \<not> cancelled)
      then do {
        let img1 = img\<lparr>flags := d_flags d\<rparr>;
        h1 \<leftarrow> g_free h (data img1);
        let img2 = img1\<lparr>data := d_image d\<rparr>;
        let d1 = d\<lparr>d_image := None\<rparr>;
        h2 \<leftarrow> g_free h1 (binarized img2);
        let img3 = img2\<lparr>binarized := d_binarized d1\<rparr>;
        let d2 = d1\<lparr>d_binarized := None\<rparr>;
        ms \<leftarrow> d_minutiae d2;
        arr \<leftarrow> (if m_num ms < 0 then None else steal_minutiae (m_list ms) (m_num ms) 0 []);
        let img4 = img3\<lparr>minutiae := Some arr\<rparr>;
        let d3 = d2\<lparr>d_minutiae := Some (ms\<lparr>m_num := 0\<rparr>)\<rparr>;
        Some (h2, img4, d3)
      }
      else Some (h, img, d))"

text \<open>\<^verbatim>\<open>fp_image_detect_minutiae_free\<close> releases what the work item still owns.\<close>

definition fp_image_detect_minutiae_free :: "heap \<Rightarrow> DetectMinutiaeData \<Rightarrow> heap option" where
  "fp_image_detect_minutiae_free h d = do {
     h1 \<leftarrow> g_free h (d_image d);
     g_free h1 (d_binarized d)
   }"

text \<open>
  One detection, as the task runs it (\<^verbatim>\<open>g_task_run_in_thread\<close>): the snapshot, the thread
  function, the callback, and the release of the work item with the task.
\<close>

definition detect_minutiae_task ::
  "FpiImageFlags \<Rightarrow> get_minutiae_fn \<Rightarrow> heap \<Rightarrow> FpImage \<Rightarrow> bool option \<Rightarrow>
     (heap \<times> FpImage \<times> task_result) option" where
  "detect_minutiae_task fl get_minutiae h self cancellable = do {
     (h1, d) \<leftarrow> fp_image_detect_minutiae h self;
     (h2, d2, res) \<leftarrow> fp_image_detect_minutiae_thread_func fl get_minutiae h1 d;
     (h3, self', d3) \<leftarrow> fp_image_detect_minutiae_cb h2 self d2 cancellable;
     h4 \<leftarrow> fp_image_detect_minutiae_free h3 d3;
     Some (h4, self', res)
   }"

text \<open>The work item a snapshot of an image creates, and the flags after normalisation.\<close>

definition work_item :: "FpImage \<Rightarrow> addr option \<Rightarrow> DetectMinutiaeData" where
  "work_item self p =
     \<lparr>d_minutiae = None, d_width = int (unat (width self)), d_height = int (unat (height self)),
      d_ppmm = ppmm self, d_flags = flags self, d_image = p, d_binarized = None\<rparr>"

definition cleared :: "FpiImageFlags \<Rightarrow> guint \<Rightarrow> guint" where
  "cleared fl f = f AND NOT (FPI_IMAGE_H_FLIPPED fl OR FPI_IMAGE_V_FLIPPED fl OR FPI_IMAGE_COLORS_INVERTED fl)"

text \<open>How the specification words the normalisation: each operation if its flag is set.\<close>

definition normalized_bytes :: "FpiImageFlags \<Rightarrow> guint \<Rightarrow> nat \<Rightarrow> nat \<Rightarrow> guint8 list \<Rightarrow> guint8 list" where
  "normalized_bytes fl f w h bytes =
     (let b1 = (if f AND FPI_IMAGE_H_FLIPPED fl \<noteq> 0 then flip_horizontal w h bytes else bytes);
          b2 = (if f AND FPI_IMAGE_V_FLIPPED fl \<noteq> 0 then flip_vertical w h b1 else b1)
      in (if f AND FPI_IMAGE_COLORS_INVERTED fl \<noteq> 0 then invert_bytes b2 else b2))"

text \<open>
  The invariant of an image in a heap: the dimensions are in the range of their
  properties, the raw buffer holds width times height bytes, and a binarized buffer, if
  any, is a live block other than the raw buffer.
\<close>

definition image_inv :: "heap \<Rightarrow> FpImage \<Rightarrow> bool" where
  "image_inv h img =
     (param_in_range PROP_WIDTH (width img) \<and> param_in_range PROP_HEIGHT (height img) \<and>
      (case data img of
         None \<Rightarrow> unat (width img) * unat (height img) = 0
       | Some a \<Rightarrow> (case block_at h a of None \<Rightarrow> False
                    | Some bytes \<Rightarrow> length bytes = unat (width img) * unat (height img))) \<and>
      (case binarized img of
         None \<Rightarrow> True
       | Some b \<Rightarrow> (case block_at h b of None \<Rightarrow> False | Some bytes \<Rightarrow> data img \<noteq> Some b)))"

text \<open>
  What a holder of an image can do to it after its construction with the functions of
  fp-image.c: run a detection (with any extraction function and any cancellable) or ask
  GObject to set a property. The getters only read; \<^verbatim>\<open>fpi_image_resize\<close> reads the image
  and builds another one with \<^verbatim>\<open>fp_image_new\<close>.
\<close>

datatype image_call =
    Detect_minutiae get_minutiae_fn "bool option"
  | Set_property prop_id guint

fun image_call_step :: "FpiImageFlags \<Rightarrow> heap \<times> FpImage \<Rightarrow> image_call \<Rightarrow> (heap \<times> FpImage) option" where
  "image_call_step fl (h, img) (Detect_minutiae gm c) =
     (case detect_minutiae_task fl gm h img c of
        None \<Rightarrow> None
      | Some (h', img', r) \<Rightarrow> Some (h', img'))"
| "image_call_step fl (h, img) (Set_property p v) = Some (h, g_object_set_property img p v)"

fun image_calls :: "FpiImageFlags \<Rightarrow> heap \<times> FpImage \<Rightarrow> image_call list \<Rightarrow> (heap \<times> FpImage) option" where
  "image_calls fl s [] = Some s"
| "image_calls fl s (c # cs) =
     (case image_call_step fl s c of None \<Rightarrow> None | Some s' \<Rightarrow> image_calls fl s' cs)"


section \<open>Error domains (fp-device.h)\<close>










section \<open>Verification\<close>

declare std_sq_dev_sum.simps [simp del] std_sq_dev_res.simps [simp del] mean_sq_diff_sum.simps [simp del]

declare hflip_row.simps [simp del] hflip_rows.simps [simp del] vflip_rows.simps [simp del]
  invert_loop.simps [simp del] steal_minutiae.simps [simp del]

subsection \<open>fpi_std_sq_dev computes the squared deviation\<close>

lemma uint8_le_255: "uint (b :: guint8) \<le> 255"
  using uint_lt2p [of b] by simp

lemma down64_32: "is_down (ucast :: guint64 \<Rightarrow> 32 word)"
  by (simp add: is_down)

lemma dev_exact:
  fixes b :: guint8 and m :: guint64
  assumes "uint m \<le> 255"
  shows "guint64_to_gint (ucast b - m) = uint b - uint m"
proof -
  have b: "0 \<le> uint b" "uint b \<le> 255" using uint8_le_255 [of b] by simp_all
  have m: "0 \<le> uint m" by simp
  have e1: "(ucast b :: guint64) = word_of_int (uint b)"
    by (rule ucast_eq)
  have e2: "m = word_of_int (uint m)"
    by (simp only: word_of_int_uint)
  have "(ucast b - m :: guint64) = word_of_int (uint b) - word_of_int (uint m)"
    using e1 e2 by (simp only:)
  also have "\<dots> = word_of_int (uint b - uint m)"
    by (simp only: wi_hom_sub)
  finally have e3: "(ucast b - m :: guint64) = word_of_int (uint b - uint m)" .
  have "(ucast (ucast b - m :: guint64) :: 32 word) = word_of_int (uint b - uint m)"
    unfolding e3 by (rule ucast_down_wi [OF down64_32])
  then have "guint64_to_gint (ucast b - m) = sint (word_of_int (uint b - uint m) :: 32 word)"
    by (simp only: guint64_to_gint_def)
  also have "\<dots> = uint b - uint m"
  proof -
    have r: "- 256 \<le> uint b - uint m" "uint b - uint m \<le> 255"
      using b m assms by linarith+
    show ?thesis
      unfolding int_word_sint using r by simp
  qed
  finally show ?thesis .
qed

lemma std_sq_dev_sum_eq:
  "sz \<le> int (length buf) \<Longrightarrow>
   std_sq_dev_sum buf sz i mean =
     Some (mean + word_of_int (\<Sum>b\<leftarrow>drop i (take (nat sz) buf). uint b))"
proof (induction buf sz i mean rule: std_sq_dev_sum.induct)
  case (1 buf sz i mean)
  show ?case
  proof (cases "int i < sz")
    case True
    then have len: "i < length (take (nat sz) buf)" and ib: "i < length buf"
      using "1.prems" by auto
    have split: "drop i (take (nat sz) buf) = buf ! i # drop (Suc i) (take (nat sz) buf)"
      using Cons_nth_drop_Suc [OF len] True by simp
    have step: "std_sq_dev_sum buf sz i mean =
        std_sq_dev_sum buf sz (Suc i) (mean + ucast (buf ! i))"
      by (subst std_sq_dev_sum.simps) (simp only: True ib if_True)
    have u: "(ucast (buf ! i) :: guint64) = word_of_int (uint (buf ! i))"
      by (rule ucast_eq)
    have "(\<Sum>b\<leftarrow>drop i (take (nat sz) buf). uint b) =
        uint (buf ! i) + (\<Sum>b\<leftarrow>drop (Suc i) (take (nat sz) buf). uint b)"
      unfolding split by simp
    then have "mean + word_of_int (\<Sum>b\<leftarrow>drop i (take (nat sz) buf). uint b) =
        mean + ucast (buf ! i) + word_of_int (\<Sum>b\<leftarrow>drop (Suc i) (take (nat sz) buf). uint b)"
      unfolding u by (simp only: wi_hom_add add.assoc)
    then show ?thesis
      using step "1.IH" [OF True ib "1.prems"] by (simp only:)
  next
    case False
    then have "drop i (take (nat sz) buf) = []" by simp
    with False show ?thesis
      by (subst std_sq_dev_sum.simps) simp
  qed
qed

lemma sum_list_uint8_bounds:
  "0 \<le> (\<Sum>b\<leftarrow>bs. uint (b :: guint8)) \<and> (\<Sum>b\<leftarrow>bs. uint b) \<le> 255 * int (length bs)"
proof (induction bs)
  case Nil
  then show ?case by simp
next
  case (Cons b bs)
  then show ?case using uint8_le_255 [of b] by simp
qed

lemma sq_small:
  fixes d :: int
  assumes "- 255 \<le> d" "d \<le> 255"
  shows "0 \<le> d * d \<and> d * d \<le> 65025"
proof -
  have "\<bar>d\<bar> \<le> 255" using assms by simp
  then have "\<bar>d\<bar> * \<bar>d\<bar> \<le> 255 * 255" by (intro mult_mono) simp_all
  then show ?thesis by simp
qed

lemma gint_of_sq:
  fixes d :: int
  assumes "- 255 \<le> d" "d \<le> 255"
  shows "gint_of (d * d) = Some (d * d)"
proof -
  have "0 \<le> d * d" "d * d \<le> 65025" using sq_small [OF assms] by simp_all
  then have "INT_MIN \<le> d * d \<and> d * d \<le> INT_MAX"
    unfolding INT_MIN_def INT_MAX_def by linarith
  then show ?thesis unfolding gint_of_def by simp
qed

lemma std_sq_dev_res_eq:
  "sz \<le> int (length buf) \<Longrightarrow> uint mean \<le> 255 \<Longrightarrow>
   std_sq_dev_res buf sz mean i res =
     Some (res + word_of_int (\<Sum>b\<leftarrow>drop i (take (nat sz) buf). (uint b - uint mean)\<^sup>2))"
proof (induction buf sz mean i res rule: std_sq_dev_res.induct)
  case (1 buf sz mean i res)
  show ?case
  proof (cases "int i < sz")
    case True
    then have len: "i < length (take (nat sz) buf)" and ib: "i < length buf"
      using "1.prems" by auto
    have split: "drop i (take (nat sz) buf) = buf ! i # drop (Suc i) (take (nat sz) buf)"
      using Cons_nth_drop_Suc [OF len] True by simp
    define d where "d = uint (buf ! i) - uint mean"
    have dev: "guint64_to_gint (ucast (buf ! i) - mean) = d"
      unfolding d_def by (rule dev_exact [OF "1.prems"(2)])
    have rng: "- 255 \<le> d" "d \<le> 255"
      using uint8_le_255 [of "buf ! i"] "1.prems"(2) uint_ge_0 [of "buf ! i"] uint_ge_0 [of mean]
      unfolding d_def by linarith+
    have g: "gint_of (d * d) = Some (d * d)"
      by (rule gint_of_sq [OF rng])
    have IH: "std_sq_dev_res buf sz mean (Suc i) (res + word_of_int (d * d)) =
        Some (res + word_of_int (d * d) +
          word_of_int (\<Sum>b\<leftarrow>drop (Suc i) (take (nat sz) buf). (uint b - uint mean)\<^sup>2))"
      by (rule "1.IH" [OF True ib dev [symmetric] g "1.prems"])
    have step: "std_sq_dev_res buf sz mean i res =
        std_sq_dev_res buf sz mean (Suc i) (res + word_of_int (d * d))"
      by (subst std_sq_dev_res.simps)
         (simp only: True ib if_True dev g Let_def Option.bind.simps)
    have "(\<Sum>b\<leftarrow>drop i (take (nat sz) buf). (uint b - uint mean)\<^sup>2) =
        d * d + (\<Sum>b\<leftarrow>drop (Suc i) (take (nat sz) buf). (uint b - uint mean)\<^sup>2)"
      unfolding split d_def by (simp add: power2_eq_square)
    then have "res + word_of_int (\<Sum>b\<leftarrow>drop i (take (nat sz) buf). (uint b - uint mean)\<^sup>2) =
        res + word_of_int (d * d) +
          word_of_int (\<Sum>b\<leftarrow>drop (Suc i) (take (nat sz) buf). (uint b - uint mean)\<^sup>2)"
      by (simp only: wi_hom_add add.assoc)
    then show ?thesis
      using step IH by (simp only:)
  next
    case False
    then have "drop i (take (nat sz) buf) = []" by simp
    with False show ?thesis
      by (subst std_sq_dev_res.simps) simp
  qed
qed

lemma uint_wi64: "0 \<le> x \<Longrightarrow> x < 2 ^ 64 \<Longrightarrow> uint (word_of_int x :: guint64) = x"
  by (simp add: uint_word_of_int)

lemma guint64_to_gint_small:
  fixes x :: guint64
  assumes "uint x < 2 ^ 31"
  shows "guint64_to_gint x = uint x"
proof -
  have "(ucast x :: 32 word) = ucast (word_of_int (uint x) :: guint64)"
    by (simp only: word_of_int_uint)
  also have "\<dots> = word_of_int (uint x)"
    by (rule ucast_down_wi [OF down64_32])
  finally have "guint64_to_gint x = sint (word_of_int (uint x) :: 32 word)"
    by (simp only: guint64_to_gint_def)
  also have "\<dots> = uint x"
  proof -
    have "0 \<le> uint x" by simp
    then show ?thesis unfolding int_word_sint using assms by simp
  qed
  finally show ?thesis .
qed

lemma sum_list_sq_bounds:
  assumes "0 \<le> m" "m \<le> 255"
  shows "0 \<le> (\<Sum>b\<leftarrow>bs. (uint (b :: guint8) - m)\<^sup>2) \<and>
         (\<Sum>b\<leftarrow>bs. (uint b - m)\<^sup>2) \<le> 65025 * int (length bs)"
proof (induction bs)
  case Nil
  then show ?case by simp
next
  case (Cons b bs)
  have "- 255 \<le> uint b - m" "uint b - m \<le> 255"
    using uint8_le_255 [of b] uint_ge_0 [of b] assms by linarith+
  from sq_small [OF this] have "0 \<le> (uint b - m)\<^sup>2" "(uint b - m)\<^sup>2 \<le> 65025"
    by (simp_all add: power2_eq_square)
  with Cons show ?case by simp
qed

lemma mean_of_bounds:
  assumes "1 \<le> length buf"
  shows "0 \<le> mean_of buf \<and> mean_of buf \<le> 255"
proof -
  let ?S = "\<Sum>b\<leftarrow>buf. uint b" and ?N = "int (length buf)"
  have S: "0 \<le> ?S" "?S \<le> 255 * ?N" using sum_list_uint8_bounds [of buf] by simp_all
  have N: "0 < ?N" using assms by (cases buf) simp_all
  have "?S div ?N \<le> (255 * ?N) div ?N" by (rule zdiv_mono1 [OF S(2) N])
  also have "\<dots> = 255" using N by simp
  finally have "?S div ?N \<le> 255" .
  moreover have "0 \<le> ?S div ?N" using S(1) N by (simp add: pos_imp_zdiv_nonneg_iff)
  ultimately show ?thesis by (simp add: mean_of_def)
qed

lemma fpi_std_sq_dev_eq:
  assumes len: "1 \<le> length buf" and max: "int (length buf) \<le> INT_MAX"
  shows "fpi_std_sq_dev buf (int (length buf)) = Some (squared_deviation buf)"
proof -
  let ?N = "int (length buf)"
  let ?S = "\<Sum>b\<leftarrow>buf. uint b"
  have N: "0 < ?N" "?N < 2 ^ 31" using len max by (cases buf; simp add: INT_MAX_def)+
  have S: "0 \<le> ?S" "?S \<le> 255 * ?N" using sum_list_uint8_bounds [of buf] by simp_all
  have S64: "?S < 2 ^ 64" using S(2) N(2) by simp
  have sum: "std_sq_dev_sum buf ?N 0 0 = Some (word_of_int ?S)"
    using std_sq_dev_sum_eq [of ?N buf 0 0] by simp
  have uN: "uint (word_of_int ?N :: guint64) = ?N"
    using N by (intro uint_wi64) simp_all
  define mean :: guint64 where "mean = word_of_int ?S div word_of_int ?N"
  have umean: "uint mean = mean_of buf"
    unfolding mean_def uint_div uN uint_wi64 [OF S(1) S64] mean_of_def ..
  have m: "0 \<le> mean_of buf" "mean_of buf \<le> 255"
    using mean_of_bounds [OF len] by simp_all
  let ?R = "\<Sum>b\<leftarrow>buf. (uint b - mean_of buf)\<^sup>2"
  have R: "0 \<le> ?R" "?R \<le> 65025 * ?N"
    using sum_list_sq_bounds [OF m, of buf] by simp_all
  have R64: "?R < 2 ^ 64" using R(2) N(2) by simp
  have res: "std_sq_dev_res buf ?N mean 0 0 = Some (word_of_int ?R)"
    using std_sq_dev_res_eq [of ?N buf mean 0 0] m umean by simp
  have "?R div ?N \<le> (65025 * ?N) div ?N" by (rule zdiv_mono1 [OF R(2) N(1)])
  also have "\<dots> = 65025" using N by simp
  finally have q: "?R div ?N \<le> 65025" .
  have uq: "uint (word_of_int ?R div word_of_int ?N :: guint64) = ?R div ?N"
    unfolding uint_div uN uint_wi64 [OF R(1) R64] ..
  have fin: "guint64_to_gint (word_of_int ?R div word_of_int ?N) = squared_deviation buf"
    using guint64_to_gint_small [of "word_of_int ?R div word_of_int ?N"] q
    unfolding uq squared_deviation_def by simp
  have nz: "?N \<noteq> 0" using N by simp
  show ?thesis
    unfolding fpi_std_sq_dev_def sum Option.bind.simps Let_def mean_def [symmetric] res
    using nz fin by (simp only: if_False mean_def)
qed

lemma squared_deviation_replicate:
  assumes "1 \<le> n"
  shows "squared_deviation (replicate n v) = 0"
proof -
  have N: "int n \<noteq> 0" using assms by simp
  have s: "(\<Sum>b\<leftarrow>replicate n v. uint b) = int n * uint v"
    by (induction n) (simp_all add: algebra_simps)
  have m: "mean_of (replicate n v) = uint v"
    unfolding mean_of_def s using N by simp
  have "(\<Sum>b\<leftarrow>replicate n v. (uint b - uint v)\<^sup>2) = 0"
    by (induction n) simp_all
  then show ?thesis
    unfolding squared_deviation_def m by simp
qed

lemma mean_example: "mean_of [0, 0, 255, 255] = 127"
  by (simp add: mean_of_def)

lemma sq_dev_example: "squared_deviation [0, 0, 255, 255] = 16256"
  by (simp add: squared_deviation_def mean_example)

text \<open>
  Claim C3. For a buffer of \<open>N \<ge> 1\<close> bytes passed with its size (a \<^verbatim>\<open>gint\<close>, hence at most
  \<open>INT_MAX\<close>), \<^verbatim>\<open>fpi_std_sq_dev\<close> returns the sum of the squared differences to the
  truncated mean, divided by \<open>N\<close>; a constant buffer gives 0; the buffer
  \<open>[0, 0, 255, 255]\<close> has mean 127 and result 16256.
\<close>

theorem fpi_std_sq_dev_correct:
  "(1 \<le> length buf \<and> int (length buf) \<le> INT_MAX \<longrightarrow>
      fpi_std_sq_dev buf (int (length buf)) = Some (squared_deviation buf)) \<and>
   (1 \<le> n \<and> int n \<le> INT_MAX \<longrightarrow> fpi_std_sq_dev (replicate n v) (int n) = Some 0) \<and>
   mean_of [0, 0, 255, 255] = 127 \<and>
   fpi_std_sq_dev [0, 0, 255, 255] 4 = Some 16256"
proof (intro conjI impI)
  assume "1 \<le> length buf \<and> int (length buf) \<le> INT_MAX"
  then show "fpi_std_sq_dev buf (int (length buf)) = Some (squared_deviation buf)"
    by (simp add: fpi_std_sq_dev_eq)
next
  assume a: "1 \<le> n \<and> int n \<le> INT_MAX"
  then have "fpi_std_sq_dev (replicate n v) (int (length (replicate n v))) =
      Some (squared_deviation (replicate n v))"
    by (intro fpi_std_sq_dev_eq) simp_all
  with a show "fpi_std_sq_dev (replicate n v) (int n) = Some 0"
    by (simp add: squared_deviation_replicate)
next
  show "mean_of [0, 0, 255, 255] = 127" by (rule mean_example)
next
  have "fpi_std_sq_dev [0, 0, 255, 255] (int (length [0, 0, 255, 255 :: guint8])) =
      Some (squared_deviation [0, 0, 255, 255])"
    by (rule fpi_std_sq_dev_eq) (simp_all add: INT_MAX_def)
  then show "fpi_std_sq_dev [0, 0, 255, 255] 4 = Some 16256"
    by (simp add: sq_dev_example)
qed

theorem fpi_std_sq_dev_correct_witness:
  "fpi_std_sq_dev [3, 7, 250] 3 = Some 13342 \<and>
   fpi_std_sq_dev [10, 10, 10, 10] 4 = Some 0"
proof -
  have sd: "squared_deviation [3, 7, 250] = 13342"
    by (simp add: squared_deviation_def mean_of_def)
  have h: "1 \<le> length [3, 7, 250 :: guint8] \<and> int (length [3, 7, 250 :: guint8]) \<le> INT_MAX"
    by (simp add: INT_MAX_def)
  have h2: "1 \<le> (4 :: nat) \<and> int 4 \<le> INT_MAX"
    by (simp add: INT_MAX_def)
  have r: "replicate 4 (10 :: guint8) = [10, 10, 10, 10]"
    by (simp add: numeral_eq_Suc)
  from fpi_std_sq_dev_correct [of "[3, 7, 250]" 4 10] h h2 sd r show ?thesis
    by simp
qed


subsection \<open>fpi_mean_sq_diff_norm and its signed accumulator\<close>

lemma sq_diff_from_nonneg: "0 \<le> sq_diff_from buf1 buf2 i n"
  unfolding sq_diff_from_def by (rule sum_nonneg) simp

lemma sq_diff_from_step:
  "i < n \<Longrightarrow> sq_diff_from buf1 buf2 i n =
     (uint (buf1 ! i) - uint (buf2 ! i))\<^sup>2 + sq_diff_from buf1 buf2 (Suc i) n"
  unfolding sq_diff_from_def by (rule sum.atLeast_Suc_lessThan)

lemma mean_sq_diff_sum_eq:
  "sz \<le> int (length buf1) \<Longrightarrow> sz \<le> int (length buf2) \<Longrightarrow> 0 \<le> res \<Longrightarrow>
   res \<le> INT_MAX \<Longrightarrow>
   mean_sq_diff_sum buf1 buf2 sz i res =
     (if res + sq_diff_from buf1 buf2 i (nat sz) \<le> INT_MAX
      then Some (res + sq_diff_from buf1 buf2 i (nat sz)) else None)"
proof (induction buf1 buf2 sz i res rule: mean_sq_diff_sum.induct)
  case (1 buf1 buf2 sz i res)
  show ?case
  proof (cases "int i < sz")
    case True
    then have ib: "i < length buf1 \<and> i < length buf2" and lt: "i < nat sz"
      using "1.prems" by auto
    define d where "d = uint (buf1 ! i) - uint (buf2 ! i)"
    have dd: "0 \<le> d * d" by simp
    have total: "sq_diff_from buf1 buf2 i (nat sz) = d * d + sq_diff_from buf1 buf2 (Suc i) (nat sz)"
      using sq_diff_from_step [OF lt] by (simp add: d_def power2_eq_square)
    have rest: "0 \<le> sq_diff_from buf1 buf2 (Suc i) (nat sz)"
      by (rule sq_diff_from_nonneg)
    show ?thesis
    proof (cases "res + d * d \<le> INT_MAX")
      case ok: True
      have "INT_MIN \<le> res + d * d"
        using dd "1.prems"(3) unfolding INT_MIN_def by linarith
      then have g: "gint_of (res + d * d) = Some (res + d * d)"
        using ok by (simp add: gint_of_def)
      have step: "mean_sq_diff_sum buf1 buf2 sz i res =
          mean_sq_diff_sum buf1 buf2 sz (Suc i) (res + d * d)"
        by (subst mean_sq_diff_sum.simps)
           (simp only: True ib if_True d_def [symmetric] g Let_def Option.bind.simps simp_thms)
      have IH: "mean_sq_diff_sum buf1 buf2 sz (Suc i) (res + d * d) =
          (if res + d * d + sq_diff_from buf1 buf2 (Suc i) (nat sz) \<le> INT_MAX
           then Some (res + d * d + sq_diff_from buf1 buf2 (Suc i) (nat sz)) else None)"
      proof (rule "1.IH" [OF True ib d_def g "1.prems"(1,2) _ ok])
        show "0 \<le> res + d * d" using dd "1.prems"(3) by linarith
      qed
      show ?thesis
        unfolding step IH total by (simp add: add.assoc)
    next
      case bad: False
      have g: "gint_of (res + d * d) = None"
        using bad by (simp add: gint_of_def)
      have step: "mean_sq_diff_sum buf1 buf2 sz i res = None"
        by (subst mean_sq_diff_sum.simps)
           (simp only: True ib if_True d_def [symmetric] g Let_def Option.bind.simps simp_thms)
      have "\<not> res + sq_diff_from buf1 buf2 i (nat sz) \<le> INT_MAX"
        using bad rest unfolding total by linarith
      then show ?thesis
        unfolding step by simp
    qed
  next
    case False
    then have "sq_diff_from buf1 buf2 i (nat sz) = 0"
      unfolding sq_diff_from_def by simp
    then show ?thesis
      using False "1.prems"(4) by (subst mean_sq_diff_sum.simps) simp
  qed
qed

lemma c_div_nonneg: "0 \<le> a \<Longrightarrow> 0 < b \<Longrightarrow> c_div a b = a div b"
  by (simp add: c_div_def sgn_if)

lemma sq_diff_from_0: "sq_diff_from buf1 buf2 0 n = sq_diff_total buf1 buf2 n"
  by (simp add: sq_diff_from_def sq_diff_total_def atLeast0LessThan)

lemma fpi_mean_sq_diff_norm_eq:
  assumes "1 \<le> n" "n \<le> length buf1" "n \<le> length buf2"
  shows "fpi_mean_sq_diff_norm buf1 buf2 (int n) =
     (if sq_diff_total buf1 buf2 n \<le> INT_MAX
      then Some (mean_square_diff buf1 buf2 n) else None)"
proof -
  let ?T = "sq_diff_total buf1 buf2 n"
  have T0: "0 \<le> ?T" using sq_diff_from_nonneg [of buf1 buf2 0 n] by (simp add: sq_diff_from_0)
  have loop: "mean_sq_diff_sum buf1 buf2 (int n) 0 0 = (if ?T \<le> INT_MAX then Some ?T else None)"
    using mean_sq_diff_sum_eq [of "int n" buf1 buf2 0 0] assms
    by (simp add: sq_diff_from_0 INT_MAX_def)
  show ?thesis
  proof (cases "?T \<le> INT_MAX")
    case True
    have n: "0 < int n" using assms by simp
    have q: "0 \<le> ?T div int n" "?T div int n \<le> ?T"
      using T0 n zdiv_mono2 [of ?T 1 "int n"] by (simp_all add: pos_imp_zdiv_nonneg_iff)
    then have "INT_MIN \<le> ?T div int n \<and> ?T div int n \<le> INT_MAX"
      using True unfolding INT_MIN_def by linarith
    then have "gint_of (c_div ?T (int n)) = Some (?T div int n)"
      unfolding c_div_nonneg [OF T0 n] by (simp add: gint_of_def)
    then show ?thesis
      unfolding fpi_mean_sq_diff_norm_def loop mean_square_diff_def
      using True n by simp
  next
    case False
    then show ?thesis
      unfolding fpi_mean_sq_diff_norm_def loop by simp
  qed
qed

lemma sq_diff_total_replicate:
  "sq_diff_total (replicate n a) (replicate n b) n = int n * (uint a - uint b)\<^sup>2"
  unfolding sq_diff_total_def by simp

text \<open>
  Claim C4. \<^verbatim>\<open>fpi_mean_sq_diff_norm\<close> accumulates the squares in a signed \<^verbatim>\<open>int\<close>. Two
  buffers of 33026 bytes that differ by 255 at every byte have the sum
  \<open>33026 * 65025 = 2147515650 > INT_MAX\<close>: the addition overflows and the function has
  no defined result, where the documented formula gives \<open>65025\<close>.
\<close>

theorem fpi_mean_sq_diff_norm_overflow:
  "fpi_mean_sq_diff_norm (replicate 33026 255) (replicate 33026 0) 33026 = None"
proof -
  have "fpi_mean_sq_diff_norm (replicate 33026 255) (replicate 33026 0) (int 33026) =
     (if sq_diff_total (replicate 33026 255) (replicate 33026 0) 33026 \<le> INT_MAX
      then Some (mean_square_diff (replicate 33026 255) (replicate 33026 0) 33026) else None)"
    by (rule fpi_mean_sq_diff_norm_eq) simp_all
  then show ?thesis
    unfolding sq_diff_total_replicate by (simp add: INT_MAX_def)
qed

lemma fpi_mean_sq_diff_norm_bounded:
  assumes "1 \<le> n" "n \<le> length buf1" "n \<le> length buf2" "n \<le> 33025"
  shows "fpi_mean_sq_diff_norm buf1 buf2 (int n) = Some (mean_square_diff buf1 buf2 n)"
proof -
  have "sq_diff_total buf1 buf2 n \<le> (\<Sum>i<n. 65025)"
    unfolding sq_diff_total_def
  proof (rule sum_mono)
    fix i
    have "- 255 \<le> uint (buf1 ! i) - uint (buf2 ! i)" "uint (buf1 ! i) - uint (buf2 ! i) \<le> 255"
      using uint8_le_255 [of "buf1 ! i"] uint8_le_255 [of "buf2 ! i"]
        uint_ge_0 [of "buf1 ! i"] uint_ge_0 [of "buf2 ! i"] by linarith+
    from sq_small [OF this] show "(uint (buf1 ! i) - uint (buf2 ! i))\<^sup>2 \<le> 65025"
      by (simp add: power2_eq_square)
  qed
  also have "\<dots> = 65025 * int n" by simp
  also have "\<dots> \<le> INT_MAX" using assms(4) by (simp add: INT_MAX_def)
  finally show ?thesis
    using fpi_mean_sq_diff_norm_eq [OF assms(1-3)] by simp
qed


subsection \<open>hflip reverses every row\<close>

lemma gint_of_Some: "INT_MIN \<le> x \<Longrightarrow> x \<le> INT_MAX \<Longrightarrow> gint_of x = Some x"
  by (simp add: gint_of_def)

lemma gint_of_nat: "int n \<le> INT_MAX \<Longrightarrow> gint_of (int n) = Some (int n)"
  by (simp add: gint_of_def INT_MIN_def)

lemma hflip_row_eq:
  assumes "length rowbuf = w" "off + w \<le> length buf" "int (off + w) \<le> INT_MAX + 1" "j \<le> w"
  shows "hflip_row buf rowbuf (int off) (int w) j =
     Some (take (off + j) buf @ drop j (rev rowbuf) @ drop (off + w) buf)"
  using assms
proof (induction "w - j" arbitrary: j buf)
  case 0
  then have "j = w" by simp
  with 0 show ?case
    by (subst hflip_row.simps) simp
next
  case (Suc n)
  then have jw: "j < w" by simp
  have k: "gint_of (int off + int j) = Some (int (off + j))"
    using jw Suc.prems(3) by (simp add: gint_of_def INT_MIN_def)
  have inb: "off + j < length buf" using jw Suc.prems(2) by simp
  have rb: "nat (int w - int j - 1) = w - Suc j" by simp
  have rbl: "w - Suc j < length rowbuf" using jw Suc.prems(1) by simp
  let ?buf' = "buf[off + j := rowbuf ! (w - Suc j)]"
  have step: "hflip_row buf rowbuf (int off) (int w) j =
      hflip_row ?buf' rowbuf (int off) (int w) (Suc j)"
    apply (subst hflip_row.simps)
    using jw inb rbl by (simp add: k rb del: of_nat_add)
  have IH: "hflip_row ?buf' rowbuf (int off) (int w) (Suc j) =
      Some (take (off + Suc j) ?buf' @ drop (Suc j) (rev rowbuf) @ drop (off + w) ?buf')"
    using Suc.hyps(2) jw Suc.prems by (intro Suc.hyps(1)) simp_all
  have t: "take (off + Suc j) ?buf' = take (off + j) buf @ [rowbuf ! (w - Suc j)]"
    using inb by (simp add: take_Suc_conv_app_nth)
  have d: "drop (off + w) ?buf' = drop (off + w) buf"
    using jw by simp
  have r: "drop j (rev rowbuf) = rowbuf ! (w - Suc j) # drop (Suc j) (rev rowbuf)"
    using jw Suc.prems(1) Cons_nth_drop_Suc [of j "rev rowbuf"] by (simp add: rev_nth)
  show ?case
    unfolding step IH t d r by simp
qed

lemma flip_horizontal_Suc:
  "flip_horizontal w (Suc h) xs = rev (take w xs) @ flip_horizontal w h (drop w xs)"
  by (simp add: flip_horizontal_def)

lemma length_flip_horizontal:
  "length xs = w * h \<Longrightarrow> length (flip_horizontal w h xs) = w * h"
proof (induction h arbitrary: xs)
  case 0
  then show ?case by (simp add: flip_horizontal_def)
next
  case (Suc h)
  then show ?case by (simp add: flip_horizontal_Suc)
qed

lemma hflip_rows_eq:
  assumes "length buf = w * h" "int (w * h) \<le> INT_MAX" "i \<le> h"
  shows "hflip_rows buf (int w) (int h) i =
     Some (take (i * w) buf @ flip_horizontal w (h - i) (drop (i * w) buf))"
  using assms
proof (induction "h - i" arbitrary: i buf)
  case 0
  then have "i = h" by simp
  with 0 show ?case
    by (subst hflip_rows.simps) (simp add: flip_horizontal_def)
next
  case (Suc n)
  then have ih: "i < h" by simp
  then have le: "i * w + w \<le> w * h"
    using mult_le_mono1 [of "Suc i" h w] by (simp add: mult.commute)
  have "i * w \<le> w * h" using le by linarith
  then have "int (i * w) \<le> int (w * h)" by (rule of_nat_mono)
  then have "int (i * w) \<le> INT_MAX" using Suc.prems(2) by simp
  then have "gint_of (int (i * w)) = Some (int (i * w))" by (rule gint_of_nat)
  then have off: "gint_of (int i * int w) = Some (int (i * w))" by simp
  have "int (i * w + w) \<le> int (length buf)"
    unfolding Suc.prems(1) using le by (rule of_nat_mono)
  then have ile: "int (i * w) + int w \<le> int (length buf)" by (simp only: of_nat_add)
  have rd: "memcpy_read buf (int (i * w)) (int w) = Some (take w (drop (i * w) buf))"
    unfolding memcpy_read_def using ile by (simp del: of_nat_mult of_nat_add)
  let ?row = "take w (drop (i * w) buf)"
  have lrow: "length ?row = w" using le Suc.prems(1) by simp
  let ?buf' = "take (i * w) buf @ rev ?row @ drop (i * w + w) buf"
  have ld: "i * w + w \<le> length buf" using le Suc.prems(1) by simp
  have "int (i * w + w) \<le> int (w * h)" using le by (rule of_nat_mono)
  then have b3: "int (i * w + w) \<le> INT_MAX + 1" using Suc.prems(2) by linarith
  have "hflip_row buf ?row (int (i * w)) (int w) 0 =
      Some (take (i * w + 0) buf @ drop 0 (rev ?row) @ drop (i * w + w) buf)"
    by (rule hflip_row_eq [OF lrow ld b3]) simp
  then have row: "hflip_row buf ?row (int (i * w)) (int w) 0 = Some ?buf'"
    by simp
  have step: "hflip_rows buf (int w) (int h) i = hflip_rows ?buf' (int w) (int h) (Suc i)"
    apply (subst hflip_rows.simps)
    using ih by (simp add: off rd row del: of_nat_mult of_nat_add)
  have len': "length ?buf' = w * h" using le Suc.prems(1) by simp
  have IH: "hflip_rows ?buf' (int w) (int h) (Suc i) =
      Some (take (Suc i * w) ?buf' @ flip_horizontal w (h - Suc i) (drop (Suc i * w) ?buf'))"
    using Suc.hyps(2) ih len' Suc.prems(2) by (intro Suc.hyps(1)) simp_all
  have lt: "length (take (i * w) buf) = i * w" using le Suc.prems(1) by simp
  have t: "take (Suc i * w) ?buf' = take (i * w) buf @ rev ?row"
    using lt lrow by (simp add: add.commute)
  have d: "drop (Suc i * w) ?buf' = drop w (drop (i * w) buf)"
    using lt lrow by (simp add: add.commute)
  have hi: "h - i = Suc (h - Suc i)" using ih by simp
  show ?case
    unfolding step IH t d hi flip_horizontal_Suc by simp
qed

lemma hflip_eq:
  assumes "length buf = w * h" "int (w * h) \<le> INT_MAX"
  shows "hflip buf (int w) (int h) = Some (flip_horizontal w h buf)"
  using hflip_rows_eq [OF assms, of 0] by (simp add: hflip_def)


subsection \<open>vflip reverses the order of the rows\<close>

lemma memcpy_read_mid:
  "memcpy_read (A @ R @ Z) (int (length A)) (int (length R)) = Some R"
  by (simp add: memcpy_read_def)

lemma memcpy_write_mid:
  "length R' = length R \<Longrightarrow>
   memcpy_write (A @ R @ Z) (int (length A)) R' = Some (A @ R' @ Z)"
  by (simp add: memcpy_write_def)

lemma rows_of_append:
  "length r = w \<Longrightarrow> rows_of w (Suc m) (r @ xs) = r # rows_of w m xs"
  by simp

lemma rows_of_snoc:
  "length xs = m * w \<Longrightarrow> length r = w \<Longrightarrow> rows_of w (Suc m) (xs @ r) = rows_of w m xs @ [r]"
proof (induction m arbitrary: xs)
  case 0
  then show ?case by simp
next
  case (Suc m)
  have l: "length (drop w xs) = m * w" using Suc.prems(1) by simp
  have w: "w \<le> length xs" using Suc.prems(1) by simp
  have "rows_of w (Suc (Suc m)) (xs @ r) = take w xs # rows_of w (Suc m) (drop w xs @ r)"
    using w by simp
  also have "\<dots> = take w xs # rows_of w m (drop w xs) @ [r]"
    using Suc.IH [OF l Suc.prems(2)] by simp
  finally show ?case by simp
qed

lemma flip_vertical_swap:
  assumes "length R0 = w" "length M = m * w" "length RL = w"
  shows "flip_vertical w (Suc (Suc m)) (R0 @ M @ RL) = RL @ flip_vertical w m M @ R0"
proof -
  have "rows_of w (Suc (Suc m)) (R0 @ M @ RL) = R0 # rows_of w (Suc m) (M @ RL)"
    by (rule rows_of_append [OF assms(1)])
  also have "\<dots> = R0 # (rows_of w m M @ [RL])"
    by (simp only: rows_of_snoc [OF assms(2,3)])
  finally show ?thesis
    by (simp add: flip_vertical_def)
qed

lemma c_div_half: "c_div (int h) 2 = int (h div 2)"
  by (simp add: c_div_def sgn_if zdiv_int)

lemma flip_vertical_small:
  "h \<le> 1 \<Longrightarrow> length xs = h * w \<Longrightarrow> flip_vertical w h xs = xs"
  by (cases h) (simp_all add: flip_vertical_def)

lemma vflip_rows_step:
  assumes lens: "length A = i * w" "length R0 = w" "length M = m * w" "length RL = w"
      "length Z = i * w"
    and h: "h = 2 * i + m + 2" and mx: "int (w * h) \<le> INT_MAX"
  shows "vflip_rows (A @ R0 @ M @ RL @ Z) (int w) (int h) (int (w * h)) i =
         vflip_rows (A @ RL @ M @ R0 @ Z) (int w) (int h) (int (w * h)) (Suc i)"
proof -
  have wh: "w * h = i * w + w + m * w + w + i * w"
    unfolding h by (simp add: algebra_simps)
  have ih: "int i < c_div (int h) 2"
    unfolding c_div_half h by simp
  have b1: "i * w \<le> w * h" "i * w + w \<le> w * h" "i * w + w + m * w \<le> w * h"
    unfolding wh by simp_all
  have off: "gint_of (int i * int w) = Some (int (length A))"
  proof -
    have "int (i * w) \<le> int (w * h)" using b1(1) by (rule of_nat_mono)
    then have "gint_of (int (i * w)) = Some (int (i * w))"
      using mx by (intro gint_of_nat) linarith
    then show ?thesis by (simp add: lens)
  qed
  have below: "gint_of (int w * (int i + 1)) = Some (int (i * w + w))"
  proof -
    have "int (i * w + w) \<le> int (w * h)" using b1(2) by (rule of_nat_mono)
    then have "gint_of (int (i * w + w)) = Some (int (i * w + w))"
      using mx by (intro gint_of_nat) linarith
    then show ?thesis by (simp add: algebra_simps)
  qed
  have swap: "gint_of (int (w * h) - int (i * w + w)) = Some (int (length (A @ R0 @ M)))"
  proof -
    have e: "int (w * h) - int (i * w + w) = int (i * w + w + m * w)"
      unfolding wh by simp
    have "int (i * w + w + m * w) \<le> int (w * h)" using b1(3) by (rule of_nat_mono)
    then have "gint_of (int (i * w + w + m * w)) = Some (int (i * w + w + m * w))"
      using mx by (intro gint_of_nat) linarith
    then show ?thesis unfolding e by (simp add: lens)
  qed
  have rd0: "memcpy_read (A @ R0 @ M @ RL @ Z) (int (length A)) (int w) = Some R0"
    using memcpy_read_mid [of A R0 "M @ RL @ Z"] by (simp only: lens)
  have rdL: "memcpy_read (A @ R0 @ M @ RL @ Z) (int (length (A @ R0 @ M))) (int w) = Some RL"
    using memcpy_read_mid [of "A @ R0 @ M" RL Z] by (simp only: lens append_assoc)
  have wr1: "memcpy_write (A @ R0 @ M @ RL @ Z) (int (length A)) RL = Some (A @ RL @ M @ RL @ Z)"
    by (rule memcpy_write_mid) (simp add: lens)
  have disj: "int (length A) + int w \<le> int (length (A @ R0 @ M))"
    by (simp add: lens)
  have within: "memcpy_within (A @ R0 @ M @ RL @ Z) (int (length A)) (int (length (A @ R0 @ M))) (int w) =
      Some (A @ RL @ M @ RL @ Z)"
    unfolding memcpy_within_def using disj by (simp only: rdL wr1 if_True simp_thms Option.bind.simps)
  have wr2: "memcpy_write (A @ RL @ M @ RL @ Z) (int (length (A @ R0 @ M))) R0 = Some (A @ RL @ M @ R0 @ Z)"
    using memcpy_write_mid [of R0 RL "A @ RL @ M" Z] by (simp add: lens)
  show ?thesis
    by (subst vflip_rows.simps [of "A @ R0 @ M @ RL @ Z"])
       (simp only: ih if_True off below swap rd0 within wr2 Option.bind.simps)
qed

lemma take_pre: "length A = n \<Longrightarrow> take n (A @ B) = A"
  by simp

lemma drop_pre: "length A = n \<Longrightarrow> drop n (A @ B) = B"
  by simp

lemma vflip_rows_eq:
  assumes "length buf = w * h" "int (w * h) \<le> INT_MAX" "2 * i \<le> h"
  shows "vflip_rows buf (int w) (int h) (int (w * h)) i =
     Some (take (i * w) buf @
           flip_vertical w (h - 2 * i) (take ((h - 2 * i) * w) (drop (i * w) buf)) @
           drop ((h - 2 * i) * w) (drop (i * w) buf))"
  using assms
proof (induction "h div 2 - i" arbitrary: i buf)
  case 0
  then have i: "i = h div 2" by simp
  then have small: "h - 2 * i \<le> 1" by simp
  define k where "k = h - 2 * i"
  have hk: "h = i + k + i" using "0.prems"(3) by (simp add: k_def)
  have "length buf = i * w + k * w + i * w"
    unfolding "0.prems"(1) by (subst hk) (simp add: add_mult_distrib2 mult.commute)
  then have lm: "length (take (k * w) (drop (i * w) buf)) = k * w"
    by simp
  have "vflip_rows buf (int w) (int h) (int (w * h)) i = Some buf"
    by (subst vflip_rows.simps) (simp add: c_div_half i)
  moreover have "take (i * w) buf @ take (k * w) (drop (i * w) buf) @
      drop (k * w) (drop (i * w) buf) = buf"
    by (simp only: append_take_drop_id)
  ultimately show ?case
    unfolding k_def [symmetric] flip_vertical_small [OF small [folded k_def] lm]
    by (simp only:)
next
  case (Suc n)
  then have ih: "i < h div 2" by simp
  then have two: "2 * i + 2 \<le> h" by simp
  define m where "m = h - 2 * i - 2"
  have h: "h = 2 * i + m + 2" using two by (simp add: m_def)
  have hm: "h - 2 * i = Suc (Suc m)" "h - 2 * Suc i = m" using h by simp_all
  define D1 where "D1 = drop (i * w) buf"
  define D2 where "D2 = drop w D1"
  define D3 where "D3 = drop (m * w) D2"
  define A where "A = take (i * w) buf"
  define R0 where "R0 = take w D1"
  define M where "M = take (m * w) D2"
  define RL where "RL = take w D3"
  define Z where "Z = drop w D3"
  have len: "length buf = i * w + w + m * w + w + i * w"
    unfolding Suc.prems(1) h by (simp add: add_mult_distrib2 mult.commute)
  have lens: "length A = i * w" "length R0 = w" "length M = m * w" "length RL = w"
      "length Z = i * w"
    using len by (simp_all add: A_def R0_def M_def RL_def Z_def D1_def D2_def D3_def)
  have "A @ R0 @ M @ RL @ Z = A @ D1"
    unfolding R0_def M_def RL_def Z_def D3_def D2_def by (simp only: append_take_drop_id)
  then have buf: "buf = A @ R0 @ M @ RL @ Z"
    unfolding A_def D1_def by (simp only: append_take_drop_id)
  let ?data2 = "A @ RL @ M @ R0 @ Z"
  have step: "vflip_rows buf (int w) (int h) (int (w * h)) i =
      vflip_rows ?data2 (int w) (int h) (int (w * h)) (Suc i)"
    unfolding buf by (rule vflip_rows_step [OF lens h Suc.prems(2)])
  have len2: "length ?data2 = w * h"
    using Suc.prems(1) unfolding buf by simp
  have IH: "vflip_rows ?data2 (int w) (int h) (int (w * h)) (Suc i) =
      Some (take (Suc i * w) ?data2 @
           flip_vertical w (h - 2 * Suc i) (take ((h - 2 * Suc i) * w) (drop (Suc i * w) ?data2)) @
           drop ((h - 2 * Suc i) * w) (drop (Suc i * w) ?data2))"
    using Suc.hyps(2) two by (intro Suc.hyps(1) [OF _ len2 Suc.prems(2)]) simp_all
  have lAR: "length (A @ RL) = Suc i * w" "length (A @ R0) = Suc i * w"
    by (simp_all add: lens)
  have t2: "take (Suc i * w) ?data2 = A @ RL"
    using take_pre [OF lAR(1), of "M @ R0 @ Z"] by simp
  have d2: "drop (Suc i * w) ?data2 = M @ R0 @ Z"
    using drop_pre [OF lAR(1), of "M @ R0 @ Z"] by simp
  have t3: "take (m * w) (M @ R0 @ Z) = M" by (rule take_pre [OF lens(3)])
  have d3: "drop (m * w) (M @ R0 @ Z) = R0 @ Z" by (rule drop_pre [OF lens(3)])
  have t0: "take (i * w) buf = A" unfolding buf by (rule take_pre [OF lens(1)])
  have d0: "drop (i * w) buf = R0 @ M @ RL @ Z" unfolding buf by (rule drop_pre [OF lens(1)])
  have lmid: "length (R0 @ M @ RL) = Suc (Suc m) * w" by (simp add: lens)
  have t1: "take (Suc (Suc m) * w) (R0 @ M @ RL @ Z) = R0 @ M @ RL"
    using take_pre [OF lmid, of Z] by simp
  have d1: "drop (Suc (Suc m) * w) (R0 @ M @ RL @ Z) = Z"
    using drop_pre [OF lmid, of Z] by simp
  show ?case
    unfolding step IH hm t2 d2 t3 d3 t0 d0 t1 d1
      flip_vertical_swap [OF lens(2) lens(3) lens(4)]
    by simp
qed

lemma vflip_eq:
  assumes "length buf = w * h" "int (w * h) \<le> INT_MAX"
  shows "vflip buf (int w) (int h) = Some (flip_vertical w h buf)"
proof -
  have g: "gint_of (int w * int h) = Some (int (w * h))"
    using gint_of_nat [OF assms(2)] by simp
  have "vflip_rows buf (int w) (int h) (int (w * h)) 0 = Some (flip_vertical w h buf)"
    using vflip_rows_eq [OF assms, of 0] assms(1) by simp
  then show ?thesis
    unfolding vflip_def g by simp
qed


subsection \<open>invert_colors complements every byte; the flips are involutions\<close>

lemma invert_byte: "(word_of_int (255 - uint (b :: guint8)) :: guint8) = 255 - b"
proof -
  have "(word_of_int (255 - uint b) :: guint8) = word_of_int 255 - word_of_int (uint b)"
    by (simp only: wi_hom_sub)
  then show ?thesis by (simp only: word_of_int_uint) simp
qed

lemma invert_bytes_Cons: "invert_bytes (x # xs) = (255 - x) # invert_bytes xs"
  by (simp add: invert_bytes_def)

lemma invert_loop_eq:
  assumes "n \<le> length buf" "i \<le> n"
  shows "invert_loop buf (int n) i =
     Some (take i buf @ invert_bytes (take (n - i) (drop i buf)) @ drop n buf)"
  using assms
proof (induction "n - i" arbitrary: i buf)
  case 0
  then have "i = n" by simp
  then show ?case
    by (subst invert_loop.simps) (simp add: invert_bytes_def)
next
  case (Suc k)
  then have lt: "i < n" and il: "i < length buf" by simp_all
  let ?buf' = "buf[i := 255 - buf ! i]"
  have step: "invert_loop buf (int n) i = invert_loop ?buf' (int n) (Suc i)"
    by (subst invert_loop.simps) (simp add: lt il invert_byte)
  have IH: "invert_loop ?buf' (int n) (Suc i) =
      Some (take (Suc i) ?buf' @ invert_bytes (take (n - Suc i) (drop (Suc i) ?buf')) @ drop n ?buf')"
    using Suc.hyps(2) lt Suc.prems(1) by (intro Suc.hyps(1)) simp_all
  have t: "take (Suc i) ?buf' = take i buf @ [255 - buf ! i]"
    using il by (simp add: take_Suc_conv_app_nth)
  have d: "drop (Suc i) ?buf' = drop (Suc i) buf" by simp
  have dn: "drop n ?buf' = drop n buf" using lt by simp
  have ni: "n - i = Suc (n - Suc i)" using lt by simp
  have c: "drop i buf = buf ! i # drop (Suc i) buf"
    using Cons_nth_drop_Suc [OF il] by simp
  show ?case
    unfolding step IH t d dn ni c by (simp add: invert_bytes_Cons)
qed

lemma invert_colors_eq:
  assumes "length buf = w * h" "int (w * h) \<le> INT_MAX"
  shows "invert_colors buf (int w) (int h) = Some (invert_bytes buf)"
proof -
  have g: "gint_of (int w * int h) = Some (int (w * h))"
    using gint_of_nat [OF assms(2)] by simp
  have "invert_loop buf (int (w * h)) 0 = Some (invert_bytes buf)"
    using invert_loop_eq [of "w * h" buf 0] assms(1) by simp
  then show ?thesis
    unfolding invert_colors_def g by simp
qed

lemma length_rows_of: "length (rows_of w h xs) = h"
  by (induction h arbitrary: xs) simp_all

lemma rows_of_widths:
  "length xs = h * w \<Longrightarrow> r \<in> set (rows_of w h xs) \<Longrightarrow> length r = w"
proof (induction h arbitrary: xs)
  case 0
  then show ?case by simp
next
  case (Suc h)
  have l: "length (drop w xs) = h * w" using Suc.prems(1) by simp
  from Suc.prems(2) have "r = take w xs \<or> r \<in> set (rows_of w h (drop w xs))" by simp
  then show ?case
  proof
    assume "r = take w xs"
    then show ?thesis using Suc.prems(1) by simp
  next
    assume "r \<in> set (rows_of w h (drop w xs))"
    then show ?thesis by (rule Suc.IH [OF l])
  qed
qed

lemma concat_rows_of: "length xs = h * w \<Longrightarrow> concat (rows_of w h xs) = xs"
proof (induction h arbitrary: xs)
  case 0
  then show ?case by simp
next
  case (Suc h)
  have "length (drop w xs) = h * w" using Suc.prems(1) by simp
  then show ?case using Suc.IH by simp
qed

lemma rows_of_concat:
  "length rs = h \<Longrightarrow> (\<And>r. r \<in> set rs \<Longrightarrow> length r = w) \<Longrightarrow> rows_of w h (concat rs) = rs"
proof (induction rs arbitrary: h)
  case Nil
  then show ?case by simp
next
  case (Cons r rs)
  then obtain h' where h: "h = Suc h'" "length rs = h'" by (cases h) auto
  have "length r = w" using Cons.prems(2) by simp
  moreover have "rows_of w h' (concat rs) = rs"
    using Cons.IH [OF h(2)] Cons.prems(2) by simp
  ultimately show ?case by (simp add: h)
qed

lemma flip_horizontal_involution:
  assumes "length xs = h * w"
  shows "flip_horizontal w h (flip_horizontal w h xs) = xs"
proof -
  let ?rs = "map rev (rows_of w h xs)"
  have "rows_of w h (concat ?rs) = ?rs"
    by (rule rows_of_concat) (auto simp: length_rows_of rows_of_widths [OF assms])
  then show ?thesis
    by (simp add: flip_horizontal_def rev_map [symmetric] o_def concat_rows_of [OF assms])
qed

lemma flip_vertical_involution:
  assumes "length xs = h * w"
  shows "flip_vertical w h (flip_vertical w h xs) = xs"
proof -
  let ?rs = "rev (rows_of w h xs)"
  have "rows_of w h (concat ?rs) = ?rs"
    by (rule rows_of_concat) (auto simp: length_rows_of rows_of_widths [OF assms])
  then show ?thesis
    by (simp add: flip_vertical_def concat_rows_of [OF assms])
qed

lemma length_flip_vertical:
  assumes "length xs = h * w"
  shows "length (flip_vertical w h xs) = h * w"
proof -
  have "length (concat (rev (rows_of w h xs))) = length (concat (rows_of w h xs))"
    by (simp add: length_concat rev_map [symmetric])
  then show ?thesis
    by (simp add: flip_vertical_def concat_rows_of [OF assms] assms)
qed

lemma length_invert_bytes: "length (invert_bytes xs) = length xs"
  by (simp add: invert_bytes_def)

text \<open>
  Claim C6, for images of at most \<open>INT_MAX\<close> bytes: on a buffer of \<open>w * h\<close> bytes, \<^verbatim>\<open>hflip\<close>
  applied twice gives the buffer back, and so does \<^verbatim>\<open>vflip\<close>. The bound is that of the
  \<^verbatim>\<open>int\<close> offsets the two functions compute.
\<close>

theorem flips_are_involutions:
  assumes "length buf = w * h" and "int (w * h) \<le> INT_MAX"
  shows "(hflip buf (int w) (int h) \<bind> (\<lambda>d. hflip d (int w) (int h))) = Some buf \<and>
         (vflip buf (int w) (int h) \<bind> (\<lambda>d. vflip d (int w) (int h))) = Some buf"
proof
  have l: "length buf = h * w" using assms(1) by (simp add: mult.commute)
  have lh: "length (flip_horizontal w h buf) = w * h"
    by (rule length_flip_horizontal [OF assms(1)])
  show "(hflip buf (int w) (int h) \<bind> (\<lambda>d. hflip d (int w) (int h))) = Some buf"
    unfolding hflip_eq [OF assms] Option.bind.simps hflip_eq [OF lh assms(2)]
    by (simp only: flip_horizontal_involution [OF l])
  have lv: "length (flip_vertical w h buf) = w * h"
    using length_flip_vertical [OF l] by (simp add: mult.commute)
  show "(vflip buf (int w) (int h) \<bind> (\<lambda>d. vflip d (int w) (int h))) = Some buf"
    unfolding vflip_eq [OF assms] Option.bind.simps vflip_eq [OF lv assms(2)]
    by (simp only: flip_vertical_involution [OF l])
qed

theorem flips_are_involutions_witness:
  "(hflip [1, 2, 3, 4, 5, 6] 3 2 \<bind> (\<lambda>d. hflip d 3 2)) = Some [1, 2, 3, 4, 5, 6] \<and>
   (vflip [1, 2, 3, 4, 5, 6] 3 2 \<bind> (\<lambda>d. vflip d 3 2)) = Some [1, 2, 3, 4, 5, 6]"
  using flips_are_involutions [of "[1, 2, 3, 4, 5, 6]" 3 2] by (simp add: INT_MAX_def)

text \<open>
  Without the bound the claim fails: for a 46341 by 46341 image \<^verbatim>\<open>width * height\<close> is
  2147488281, more than \<open>INT_MAX\<close>, and \<^verbatim>\<open>vflip\<close> has no defined result.
\<close>

theorem vflip_large_image_undefined:
  "length (replicate (46341 * 46341) (0 :: guint8)) = 46341 * 46341 \<and>
   (vflip (replicate (46341 * 46341) 0) 46341 46341 \<bind> (\<lambda>d. vflip d 46341 46341))
     \<noteq> Some (replicate (46341 * 46341) 0)"
proof -
  have "gint_of (46341 * 46341) = None"
    by (simp add: gint_of_def INT_MAX_def)
  then have "vflip (replicate (46341 * 46341) 0) 46341 46341 = None"
    unfolding vflip_def by (simp only: Option.bind.simps)
  then show ?thesis
    by (simp only: Option.bind.simps length_replicate) simp
qed


subsection \<open>The heap, the snapshot and the work item\<close>

lemma block_at_append_old: "a < length h \<Longrightarrow> block_at (h @ ws) a = block_at h a"
  by (simp add: block_at_def nth_append)

lemma block_at_append_new: "block_at (h @ [x]) (length h) = x"
  by (simp add: block_at_def)

lemma in_range_le:
  "param_in_range PROP_WIDTH v \<Longrightarrow> unat v \<le> 65535"
  "param_in_range PROP_HEIGHT v \<Longrightarrow> unat v \<le> 65535"
proof -
  have m: "unat G_MAXUINT16 = 65535" by (simp add: G_MAXUINT16_def)
  show "param_in_range PROP_WIDTH v \<Longrightarrow> unat v \<le> 65535"
    unfolding param_in_range_def word_le_nat_alt by (simp add: m)
  show "param_in_range PROP_HEIGHT v \<Longrightarrow> unat v \<le> 65535"
    unfolding param_in_range_def word_le_nat_alt by (simp add: m)
qed

lemma dims_product:
  fixes w ht :: guint
  assumes "unat w \<le> 65535" "unat ht \<le> 65535"
  shows "unat (w * ht) = unat w * unat ht" "unat w * unat ht \<le> 65535 * 65535"
proof -
  show b: "unat w * unat ht \<le> 65535 * 65535"
    using assms by (rule mult_le_mono)
  then have "unat w * unat ht < 2 ^ LENGTH(32)" by simp
  then show "unat (w * ht) = unat w * unat ht"
    by (rule unat_mult_lem [THEN iffD1])
qed

lemma sint_small:
  fixes w :: guint
  assumes "unat w \<le> 65535"
  shows "sint w = int (unat w)"
proof -
  have u: "uint w = int (unat w)" by (rule uint_nat)
  have "w = word_of_int (uint w)" by (simp only: word_of_int_uint)
  then have "sint w = sint (word_of_int (uint w) :: guint)" by (simp only:)
  also have "\<dots> = uint w"
  proof -
    have "0 \<le> uint w" "uint w \<le> 65535" unfolding u using assms by linarith+
    then show ?thesis unfolding int_word_sint by simp
  qed
  finally show ?thesis unfolding u .
qed

lemma image_inv_bytes:
  assumes "image_inv h self"
  obtains src where "deref h (data self) = Some src"
    "length src = unat (width self) * unat (height self)"
    "unat (width self * height self) = unat (width self) * unat (height self)"
    "unat (width self) \<le> 65535" "unat (height self) \<le> 65535"
proof -
  have r: "unat (width self) \<le> 65535" "unat (height self) \<le> 65535"
    using assms in_range_le by (simp_all add: image_inv_def)
  have p: "unat (width self * height self) = unat (width self) * unat (height self)"
    by (rule dims_product(1) [OF r])
  show ?thesis
  proof (cases "data self")
    case None
    then have "deref h (data self) = Some []" "length ([] :: guint8 list) = unat (width self) * unat (height self)"
      using assms by (simp_all add: image_inv_def deref_def)
    then show ?thesis using that p r by blast
  next
    case (Some a)
    then obtain src where "block_at h a = Some src" "length src = unat (width self) * unat (height self)"
      using assms by (auto simp: image_inv_def split: option.splits)
    then show ?thesis using that [of src] p r Some by (simp add: deref_def)
  qed
qed

lemma deref_NULL: "deref h None = Some []"
  by (simp add: deref_def)

lemma deref_last: "deref (h @ [x]) (Some (length h)) = x"
  by (simp add: deref_def block_at_def)

lemma store_NULL: "store h None [] = Some h"
  by (simp add: store_def)

lemma store_last: "store (h @ [Some b]) (Some (length h)) b' = Some (h @ [Some b'])"
  by (simp add: store_def block_at_def)

lemma snapshot_eq:
  assumes "image_inv h self" and "deref h (data self) = Some src"
  shows "fp_image_detect_minutiae h self =
     Some (if length src = 0 then (h, work_item self None)
           else (h @ [Some src], work_item self (Some (length h))))"
proof -
  from assms(1) obtain src' where s: "deref h (data self) = Some src'"
    "length src' = unat (width self) * unat (height self)"
    "unat (width self * height self) = unat (width self) * unat (height self)"
    "unat (width self) \<le> 65535" "unat (height self) \<le> 65535"
    by (rule image_inv_bytes)
  have src: "src' = src" using s(1) assms(2) by simp
  have n: "unat (width self * height self) = length src" using s(2,3) src by simp
  have sw: "sint (width self) = int (unat (width self))" by (rule sint_small [OF s(4)])
  have sh: "sint (height self) = int (unat (height self))" by (rule sint_small [OF s(5)])
  show ?thesis
  proof (cases "length src = 0")
    case True
    then show ?thesis
      unfolding fp_image_detect_minutiae_def n g_malloc_def g_malloc0_def
      by (simp add: assms(2) memcpy_read_def memcpy_write_def deref_NULL store_NULL work_item_def sw sh)
  next
    case False
    then show ?thesis
      unfolding fp_image_detect_minutiae_def n g_malloc_def g_malloc0_def
      by (simp add: assms(2) memcpy_read_def memcpy_write_def deref_last store_last work_item_def sw sh)
  qed
qed

lemma on_buffer_NULL:
  "on_buffer f h None = (case f [] of None \<Rightarrow> None | Some b \<Rightarrow> if b = [] then Some h else None)"
  by (simp add: on_buffer_def deref_def store_def split: option.splits)

lemma on_buffer_last:
  "on_buffer f (h @ [Some b]) (Some (length h)) =
     (case f b of None \<Rightarrow> None | Some b' \<Rightarrow> Some (h @ [Some b']))"
  by (simp add: on_buffer_def deref_def store_def block_at_def split: option.splits)

lemma length_memcpy_write: "memcpy_write b off src = Some b' \<Longrightarrow> length b' = length b"
  by (auto simp: memcpy_write_def split: if_splits)

lemma length_memcpy_within: "memcpy_within b dst src n = Some b' \<Longrightarrow> length b' = length b"
  by (auto simp: memcpy_within_def bind_eq_Some_conv length_memcpy_write split: if_splits)

lemma length_hflip_row:
  "hflip_row buf rowbuf offset wd j = Some r \<Longrightarrow> length r = length buf"
proof (induction buf rowbuf offset wd j arbitrary: r rule: hflip_row.induct)
  case (1 buf rowbuf offset wd j)
  show ?case
  proof (cases "int j < wd")
    case True
    from "1.prems" obtain k where k: "gint_of (offset + int j) = Some k"
      and c: "0 \<le> k \<and> k < int (length buf) \<and> nat (wd - int j - 1) < length rowbuf"
      and rec: "hflip_row (buf[nat k := rowbuf ! nat (wd - int j - 1)]) rowbuf offset wd (Suc j) = Some r"
      by (subst (asm) hflip_row.simps) (auto simp: True bind_eq_Some_conv split: if_splits)
    from "1.IH" [OF True k c rec] show ?thesis by simp
  next
    case False
    with "1.prems" show ?thesis
      by (subst (asm) hflip_row.simps) simp
  qed
qed

lemma length_hflip_rows:
  "hflip_rows buf wd ht i = Some r \<Longrightarrow> length r = length buf"
proof (induction buf wd ht i arbitrary: r rule: hflip_rows.induct)
  case (1 buf wd ht i)
  show ?case
  proof (cases "int i < ht")
    case True
    from "1.prems" obtain offset rowbuf buf' where o: "gint_of (int i * wd) = Some offset"
      and rb: "memcpy_read buf offset wd = Some rowbuf"
      and row: "hflip_row buf rowbuf offset wd 0 = Some buf'"
      and rec: "hflip_rows buf' wd ht (Suc i) = Some r"
      by (subst (asm) hflip_rows.simps) (auto simp: True bind_eq_Some_conv)
    from "1.IH" [OF True o rb row rec] length_hflip_row [OF row] show ?thesis by simp
  next
    case False
    with "1.prems" show ?thesis
      by (subst (asm) hflip_rows.simps) simp
  qed
qed

lemma length_hflip: "hflip buf wd ht = Some r \<Longrightarrow> length r = length buf"
  by (auto simp: hflip_def length_hflip_rows split: if_splits)

lemma length_vflip_rows:
  "vflip_rows buf wd ht len i = Some r \<Longrightarrow> length r = length buf"
proof (induction buf wd ht len i arbitrary: r rule: vflip_rows.induct)
  case (1 buf wd ht len i)
  show ?case
  proof (cases "int i < c_div ht 2")
    case True
    from "1.prems" obtain offset below swap_offset rowbuf buf1 buf2
      where o: "gint_of (int i * wd) = Some offset"
      and b: "gint_of (wd * (int i + 1)) = Some below"
      and s: "gint_of (len - below) = Some swap_offset"
      and rb: "memcpy_read buf offset wd = Some rowbuf"
      and w1: "memcpy_within buf offset swap_offset wd = Some buf1"
      and w2: "memcpy_write buf1 swap_offset rowbuf = Some buf2"
      and rec: "vflip_rows buf2 wd ht len (Suc i) = Some r"
      by (subst (asm) vflip_rows.simps) (auto simp: True bind_eq_Some_conv)
    from "1.IH" [OF True o b s rb w1 w2 rec] length_memcpy_within [OF w1] length_memcpy_write [OF w2]
    show ?thesis by simp
  next
    case False
    with "1.prems" show ?thesis
      by (subst (asm) vflip_rows.simps) simp
  qed
qed

lemma length_vflip: "vflip buf wd ht = Some r \<Longrightarrow> length r = length buf"
  by (auto simp: vflip_def bind_eq_Some_conv length_vflip_rows split: if_splits)

lemma length_invert_loop:
  "invert_loop buf len i = Some r \<Longrightarrow> length r = length buf"
proof (induction buf len i arbitrary: r rule: invert_loop.induct)
  case (1 buf len i)
  show ?case
  proof (cases "int i < len")
    case True
    from "1.prems" have il: "i < length buf"
      and rec: "invert_loop (buf[i := word_of_int (255 - uint (buf ! i))]) len (Suc i) = Some r"
      by (subst (asm) invert_loop.simps, simp add: True split: if_splits)+
    from "1.IH" [OF True il rec] show ?thesis by simp
  next
    case False
    with "1.prems" show ?thesis
      by (subst (asm) invert_loop.simps) simp
  qed
qed

lemma length_invert_colors: "invert_colors buf wd ht = Some r \<Longrightarrow> length r = length buf"
  by (auto simp: invert_colors_def bind_eq_Some_conv length_invert_loop)

lemma step_NULL:
  assumes "(if c then on_buffer f h None else Some h) = Some h'"
  shows "h' = h"
  using assms by (auto simp: on_buffer_NULL split: if_splits option.splits)

lemma step_last:
  assumes "(if c then on_buffer f (h @ [Some b]) (Some (length h)) else Some (h @ [Some b])) = Some h'"
    and "\<And>r. f b = Some r \<Longrightarrow> length r = length b"
  shows "\<exists>b'. h' = h @ [Some b'] \<and> length b' = length b"
  using assms by (auto simp: on_buffer_last split: if_splits option.splits)

lemma normalize_NULL:
  assumes "d_image d = None" "normalize_image fl h d = Some (h', d')"
  shows "h' = h \<and> d' = d\<lparr>d_flags := cleared fl (d_flags d)\<rparr>"
proof -
  from assms(2) obtain h1 h2 h3 where
    s1: "(if d_flags d AND FPI_IMAGE_H_FLIPPED fl \<noteq> 0
          then on_buffer (\<lambda>b. hflip b (d_width d) (d_height d)) h None else Some h) = Some h1"
    and s2: "(if d_flags d AND FPI_IMAGE_V_FLIPPED fl \<noteq> 0
          then on_buffer (\<lambda>b. vflip b (d_width d) (d_height d)) h1 None else Some h1) = Some h2"
    and s3: "(if d_flags d AND FPI_IMAGE_COLORS_INVERTED fl \<noteq> 0
          then on_buffer (\<lambda>b. invert_colors b (d_width d) (d_height d)) h2 None else Some h2) = Some h3"
    and r: "h' = h3" "d' = d\<lparr>d_flags := cleared fl (d_flags d)\<rparr>"
    unfolding normalize_image_def assms(1) cleared_def by (auto simp: bind_eq_Some_conv)
  from step_NULL [OF s1] step_NULL [OF s2] step_NULL [OF s3] r show ?thesis by simp
qed

lemma normalize_last:
  assumes "d_image d = Some (length h)" "normalize_image fl (h @ [Some b]) d = Some (h', d')"
  shows "\<exists>b'. h' = h @ [Some b'] \<and> length b' = length b \<and> d' = d\<lparr>d_flags := cleared fl (d_flags d)\<rparr>"
proof -
  from assms(2) obtain h1 h2 h3 where
    s1: "(if d_flags d AND FPI_IMAGE_H_FLIPPED fl \<noteq> 0
          then on_buffer (\<lambda>b. hflip b (d_width d) (d_height d)) (h @ [Some b]) (Some (length h))
          else Some (h @ [Some b])) = Some h1"
    and s2: "(if d_flags d AND FPI_IMAGE_V_FLIPPED fl \<noteq> 0
          then on_buffer (\<lambda>b. vflip b (d_width d) (d_height d)) h1 (Some (length h)) else Some h1) = Some h2"
    and s3: "(if d_flags d AND FPI_IMAGE_COLORS_INVERTED fl \<noteq> 0
          then on_buffer (\<lambda>b. invert_colors b (d_width d) (d_height d)) h2 (Some (length h)) else Some h2) = Some h3"
    and r: "h' = h3" "d' = d\<lparr>d_flags := cleared fl (d_flags d)\<rparr>"
    unfolding normalize_image_def assms(1) cleared_def by (auto simp: bind_eq_Some_conv)
  have "\<exists>b'. h1 = h @ [Some b'] \<and> length b' = length b"
    by (rule step_last [OF s1]) (rule length_hflip)
  then obtain b1 where b1: "h1 = h @ [Some b1]" "length b1 = length b"
    by blast
  have "\<exists>b'. h2 = h @ [Some b'] \<and> length b' = length b1"
    by (rule step_last [OF s2 [unfolded b1(1)]]) (rule length_vflip)
  then obtain b2 where b2: "h2 = h @ [Some b2]" "length b2 = length b1"
    by blast
  have "\<exists>b'. h3 = h @ [Some b'] \<and> length b' = length b2"
    by (rule step_last [OF s3 [unfolded b2(1)]]) (rule length_invert_colors)
  then obtain b3 where b3: "h3 = h @ [Some b3]" "length b3 = length b2"
    by blast
  show ?thesis using r b1 b2 b3 by simp
qed

lemma thread_func_cases:
  assumes "fp_image_detect_minutiae_thread_func fl gm h d = Some (h2, d2, r)"
  obtains hn dn bytes e where "normalize_image fl h d = Some (hn, dn)"
    "deref hn (d_image dn) = Some bytes"
    "e = gm bytes (d_width dn) (d_height dn) (d_ppmm dn)"
    "r = (if e_status e \<noteq> 0 then G_IO_ERROR_FAILED (e_status e) else Returned_TRUE)"
    "d_minutiae d2 = e_minutiae e" "d_image d2 = d_image dn" "d_flags d2 = d_flags dn"
    "(e_bdata e = None \<and> h2 = hn \<and> d_binarized d2 = None) \<or>
     (\<exists>bd. e_bdata e = Some bd \<and> h2 = hn @ [Some bd] \<and> d_binarized d2 = Some (length hn))"
proof -
  from assms obtain hn dn bytes where n: "normalize_image fl h d = Some (hn, dn)"
    and b: "deref hn (d_image dn) = Some bytes"
    and rest: "(let e = gm bytes (d_width dn) (d_height dn) (d_ppmm dn);
          (h2', bdata) = (case e_bdata e of None \<Rightarrow> (hn, None)
                        | Some b \<Rightarrow> (hn @ [Some b], Some (length hn)));
          d2' = dn\<lparr>d_binarized := bdata, d_minutiae := e_minutiae e\<rparr>
        in Some (h2', d2', if e_status e \<noteq> 0 then G_IO_ERROR_FAILED (e_status e) else Returned_TRUE))
       = Some (h2, d2, r)"
    unfolding fp_image_detect_minutiae_thread_func_def
    by (auto simp: bind_eq_Some_conv)
  define e where "e = gm bytes (d_width dn) (d_height dn) (d_ppmm dn)"
  show ?thesis
  proof (cases "e_bdata e")
    case None
    with rest have "h2 = hn" "d2 = dn\<lparr>d_binarized := None, d_minutiae := e_minutiae e\<rparr>"
      "r = (if e_status e \<noteq> 0 then G_IO_ERROR_FAILED (e_status e) else Returned_TRUE)"
      by (simp_all add: Let_def e_def [symmetric])
    then show ?thesis using that [OF n b e_def] None by simp
  next
    case (Some bd)
    with rest have "h2 = hn @ [Some bd]"
      "d2 = dn\<lparr>d_binarized := Some (length hn), d_minutiae := e_minutiae e\<rparr>"
      "r = (if e_status e \<noteq> 0 then G_IO_ERROR_FAILED (e_status e) else Returned_TRUE)"
      by (simp_all add: Let_def e_def [symmetric])
    then show ?thesis using that [OF n b e_def] Some by simp
  qed
qed

lemma thread_shape:
  assumes inv: "image_inv h self" and src: "deref h (data self) = Some src"
    and snap: "fp_image_detect_minutiae h self = Some (h1, d)"
    and thread: "fp_image_detect_minutiae_thread_func fl gm h1 d = Some (h2, d2, r)"
  obtains ip bp where "h2 = h @ ip @ bp"
    "(src = [] \<and> ip = [] \<and> d_image d2 = None) \<or>
     (\<exists>b'. src \<noteq> [] \<and> ip = [Some b'] \<and> length b' = length src \<and> d_image d2 = Some (length h))"
    "(bp = [] \<and> d_binarized d2 = None) \<or>
     (\<exists>bd. bp = [Some bd] \<and> d_binarized d2 = Some (length h + length ip))"
    "d_flags d2 = cleared fl (flags self)"
proof -
  from thread obtain hn dn bytes and e :: extraction where n: "normalize_image fl h1 d = Some (hn, dn)"
    and "deref hn (d_image dn) = Some bytes"
    and "e = gm bytes (d_width dn) (d_height dn) (d_ppmm dn)"
    and "r = (if e_status e \<noteq> 0 then G_IO_ERROR_FAILED (e_status e) else Returned_TRUE)"
    and "d_minutiae d2 = e_minutiae e"
    and d2: "d_image d2 = d_image dn" "d_flags d2 = d_flags dn"
    and bin: "(e_bdata e = None \<and> h2 = hn \<and> d_binarized d2 = None) \<or>
     (\<exists>bd. e_bdata e = Some bd \<and> h2 = hn @ [Some bd] \<and> d_binarized d2 = Some (length hn))"
    by (rule thread_func_cases)
  have s: "(h1, d) = (if length src = 0 then (h, work_item self None)
           else (h @ [Some src], work_item self (Some (length h))))"
    using snapshot_eq [OF inv src] snap by simp
  show ?thesis
  proof (cases "src = []")
    case True
    then have h1: "h1 = h" "d = work_item self None" using s by simp_all
    then have di: "d_image d = None" by (simp add: work_item_def)
    from normalize_NULL [OF di n] have hn: "hn = h1" "dn = d\<lparr>d_flags := cleared fl (d_flags d)\<rparr>"
      by simp_all
    have f: "d_flags d2 = cleared fl (flags self)"
      using d2 hn h1 by (simp add: work_item_def)
    have i: "d_image d2 = None" using d2 hn di by simp
    from bin show ?thesis
    proof
      assume "e_bdata e = None \<and> h2 = hn \<and> d_binarized d2 = None"
      then show ?thesis using that [of "[]" "[]"] True hn h1 f i by simp
    next
      assume "\<exists>bd. e_bdata e = Some bd \<and> h2 = hn @ [Some bd] \<and> d_binarized d2 = Some (length hn)"
      then obtain bd where "h2 = hn @ [Some bd]" "d_binarized d2 = Some (length hn)" by blast
      then show ?thesis using that [of "[]" "[Some bd]"] True hn h1 f i by simp
    qed
  next
    case False
    then have h1: "h1 = h @ [Some src]" "d = work_item self (Some (length h))" using s by simp_all
    then have di: "d_image d = Some (length h)" by (simp add: work_item_def)
    from normalize_last [OF di n [unfolded h1(1)]] obtain b' where
      hn: "hn = h @ [Some b']" "length b' = length src" "dn = d\<lparr>d_flags := cleared fl (d_flags d)\<rparr>"
      by blast
    have f: "d_flags d2 = cleared fl (flags self)"
      using d2 hn h1 by (simp add: work_item_def)
    have i: "d_image d2 = Some (length h)" using d2 hn di by simp
    from bin show ?thesis
    proof
      assume "e_bdata e = None \<and> h2 = hn \<and> d_binarized d2 = None"
      then show ?thesis using that [of "[Some b']" "[]"] False hn f i by simp
    next
      assume "\<exists>bd. e_bdata e = Some bd \<and> h2 = hn @ [Some bd] \<and> d_binarized d2 = Some (length hn)"
      then obtain bd where "h2 = hn @ [Some bd]" "d_binarized d2 = Some (length hn)" by blast
      then show ?thesis using that [of "[Some b']" "[Some bd]"] False hn f i by simp
    qed
  qed
qed

lemma g_free_NULL: "g_free h None = Some h"
  by (simp add: g_free_def)

lemma g_free_live: "block_at h a = Some b \<Longrightarrow> g_free h (Some a) = Some (h[a := None])"
  by (simp add: g_free_def)

lemma cb_cancelled:
  "fp_image_detect_minutiae_cb h img d (Some True) = Some (h, img, d)"
  by (simp add: fp_image_detect_minutiae_cb_def)

lemma free_shape:
  assumes "h2 = h @ ip @ bp"
    and "(ip = [] \<and> d_image d2 = None) \<or> (\<exists>b'. ip = [Some b'] \<and> d_image d2 = Some (length h))"
    and "(bp = [] \<and> d_binarized d2 = None) \<or>
         (\<exists>bd. bp = [Some bd] \<and> d_binarized d2 = Some (length h + length ip))"
  shows "fp_image_detect_minutiae_free h2 d2 = Some (h @ replicate (length ip + length bp) None)"
proof -
  from assms(2) have 1: "g_free h2 (d_image d2) = Some (h @ replicate (length ip) None @ bp)"
  proof
    assume "ip = [] \<and> d_image d2 = None"
    then show ?thesis using assms(1) by (simp add: g_free_NULL)
  next
    assume "\<exists>b'. ip = [Some b'] \<and> d_image d2 = Some (length h)"
    then obtain b' where i: "ip = [Some b']" "d_image d2 = Some (length h)" by blast
    have "block_at h2 (length h) = Some b'"
      unfolding assms(1) i by (simp add: block_at_def nth_append)
    from g_free_live [OF this] show ?thesis
      unfolding assms(1) i by (simp add: list_update_append)
  qed
  let ?h3 = "h @ replicate (length ip) None @ bp"
  from assms(3) have 2: "g_free ?h3 (d_binarized d2) = Some (h @ replicate (length ip + length bp) None)"
  proof
    assume "bp = [] \<and> d_binarized d2 = None"
    then show ?thesis by (simp add: g_free_NULL)
  next
    assume "\<exists>bd. bp = [Some bd] \<and> d_binarized d2 = Some (length h + length ip)"
    then obtain bd where b: "bp = [Some bd]" "d_binarized d2 = Some (length h + length ip)" by blast
    have "block_at ?h3 (length h + length ip) = Some bd"
      unfolding b by (simp add: block_at_def nth_append)
    from g_free_live [OF this] show ?thesis
      unfolding b by (simp add: list_update_append replicate_append_same)
  qed
  show ?thesis
    unfolding fp_image_detect_minutiae_free_def 1 using 2 by simp
qed


subsection \<open>Snapshot and cancellation\<close>

lemma w_inv: "image_inv [Some [1, 2, 3, 4, 5, 6]]
     \<lparr>width = 3, height = 2, ppmm = 0, flags = 7, data = Some 0, binarized = None, minutiae = None\<rparr>"
  by (simp add: image_inv_def param_in_range_def G_MAXUINT16_def block_at_def)

lemma w_snap: "fp_image_detect_minutiae [Some [1, 2, 3, 4, 5, 6]]
     \<lparr>width = 3, height = 2, ppmm = 0, flags = 7, data = Some 0, binarized = None, minutiae = None\<rparr>
   = Some ([Some [1, 2, 3, 4, 5, 6], Some [1, 2, 3, 4, 5, 6]],
       \<lparr>d_minutiae = None, d_width = 3, d_height = 2, d_ppmm = 0, d_flags = 7,
        d_image = Some 1, d_binarized = None\<rparr>)"
  by code_simp

lemma w_thread: "fp_image_detect_minutiae_thread_func
     \<lparr>FPI_IMAGE_V_FLIPPED = 1, FPI_IMAGE_H_FLIPPED = 2, FPI_IMAGE_COLORS_INVERTED = 4\<rparr>
     (\<lambda>b w h p. \<lparr>e_status = 0, e_bdata = Some [0, 0, 0, 0, 0, 0],
                  e_minutiae = Some \<lparr>m_num = 1, m_list = [(0, 1), (5, 5)]\<rparr>\<rparr>)
     [Some [1, 2, 3, 4, 5, 6], Some [1, 2, 3, 4, 5, 6]]
     \<lparr>d_minutiae = None, d_width = 3, d_height = 2, d_ppmm = 0, d_flags = 7,
        d_image = Some 1, d_binarized = None\<rparr>
   = Some ([Some [1, 2, 3, 4, 5, 6], Some [249, 250, 251, 252, 253, 254], Some [0, 0, 0, 0, 0, 0]],
       \<lparr>d_minutiae = Some \<lparr>m_num = 1, m_list = [(0, 1), (5, 5)]\<rparr>, d_width = 3, d_height = 2,
        d_ppmm = 0, d_flags = 0, d_image = Some 1, d_binarized = Some 2\<rparr>, Returned_TRUE)"
  by code_simp

lemma image_inv_data_old:
  assumes "image_inv h self"
  shows "deref (h @ ws) (data self) = deref h (data self)"
proof (cases "data self")
  case None
  then show ?thesis by (simp add: deref_def)
next
  case (Some a)
  then have "block_at h a \<noteq> None"
    using assms by (auto simp: image_inv_def split: option.splits)
  then have "a < length h" by (auto simp: block_at_def split: if_splits)
  then show ?thesis using Some by (simp add: deref_def block_at_append_old)
qed

text \<open>
  Claim C2. When the thread function has finished and the cancellable is cancelled, the
  task ends with the image exactly as it was: every field, and every block of the heap
  that existed before (the raw buffer among them); all the blocks the task produced are
  freed.
\<close>

theorem cancelled_detection_leaves_image_untouched:
  assumes inv: "image_inv h self"
    and snap: "fp_image_detect_minutiae h self = Some (h1, d)"
    and thread: "fp_image_detect_minutiae_thread_func fl gm h1 d = Some (h2, d2, r)"
  shows "\<exists>h4. detect_minutiae_task fl gm h self (Some True) = Some (h4, self, r) \<and>
           take (length h) h4 = h \<and>
           (\<forall>b \<in> set (drop (length h) h4). b = None) \<and>
           deref h4 (data self) = deref h (data self)"
proof -
  obtain src where src: "deref h (data self) = Some src"
    "length src = unat (width self) * unat (height self)"
    "unat (width self * height self) = unat (width self) * unat (height self)"
    "unat (width self) \<le> 65535" "unat (height self) \<le> 65535"
    by (rule image_inv_bytes [OF inv])
  obtain ip bp where shape: "h2 = h @ ip @ bp"
    "(src = [] \<and> ip = [] \<and> d_image d2 = None) \<or>
     (\<exists>b'. src \<noteq> [] \<and> ip = [Some b'] \<and> length b' = length src \<and> d_image d2 = Some (length h))"
    "(bp = [] \<and> d_binarized d2 = None) \<or>
     (\<exists>bd. bp = [Some bd] \<and> d_binarized d2 = Some (length h + length ip))"
    "d_flags d2 = cleared fl (flags self)"
    by (rule thread_shape [OF inv src(1) snap thread])
  from shape(2) have i: "(ip = [] \<and> d_image d2 = None) \<or> (\<exists>b'. ip = [Some b'] \<and> d_image d2 = Some (length h))"
    by blast
  let ?h4 = "h @ replicate (length ip + length bp) None"
  have free: "fp_image_detect_minutiae_free h2 d2 = Some ?h4"
    by (rule free_shape [OF shape(1) i shape(3)])
  have run: "detect_minutiae_task fl gm h self (Some True) = Some (?h4, self, r)"
    unfolding detect_minutiae_task_def by (simp add: snap thread cb_cancelled free)
  have old: "deref ?h4 (data self) = deref h (data self)"
    by (rule image_inv_data_old [OF inv])
  have t: "take (length h) ?h4 = h" by simp
  have f: "\<forall>b \<in> set (drop (length h) ?h4). b = None"
    by (simp add: set_replicate_conv_if)
  show ?thesis
    by (rule exI [of _ ?h4], intro conjI) (rule run t f old)+
qed

text \<open>
  Claim C7. \<^verbatim>\<open>fp_image_detect_minutiae\<close> copies the dimensions, the resolution and the flags
  into the work item, and the raw bytes into a block that did not exist before; no
  earlier block changes, neither then nor while the thread function runs on the copy.
\<close>

theorem snapshot_is_isolated:
  assumes inv: "image_inv h self"
  shows "\<exists>h1 d. fp_image_detect_minutiae h self = Some (h1, d) \<and>
           d_width d = int (unat (width self)) \<and> d_height d = int (unat (height self)) \<and>
           d_ppmm d = ppmm self \<and> d_flags d = flags self \<and>
           d_minutiae d = None \<and> d_binarized d = None \<and>
           deref h1 (d_image d) = deref h (data self) \<and>
           (d_image d = None \<or> d_image d = Some (length h)) \<and>
           take (length h) h1 = h \<and>
           (\<forall>fl gm h2 d2 r. fp_image_detect_minutiae_thread_func fl gm h1 d = Some (h2, d2, r) \<longrightarrow>
              take (length h) h2 = h \<and> deref h2 (data self) = deref h (data self))"
proof -
  obtain src where src: "deref h (data self) = Some src"
    "length src = unat (width self) * unat (height self)"
    "unat (width self * height self) = unat (width self) * unat (height self)"
    "unat (width self) \<le> 65535" "unat (height self) \<le> 65535"
    by (rule image_inv_bytes [OF inv])
  define h1 where "h1 = (if length src = 0 then h else h @ [Some src])"
  define d where "d = work_item self (if length src = 0 then None else Some (length h))"
  have snap: "fp_image_detect_minutiae h self = Some (h1, d)"
    using snapshot_eq [OF inv src(1)] by (simp add: h1_def d_def)
  have copy: "deref h1 (d_image d) = deref h (data self)"
    unfolding src(1) by (simp add: h1_def d_def work_item_def deref_def block_at_def)
  have frame: "take (length h) h2 = h \<and> deref h2 (data self) = deref h (data self)"
    if th: "fp_image_detect_minutiae_thread_func fl gm h1 d = Some (h2, d2, r)" for fl gm h2 d2 r
  proof -
    obtain ip bp where shape: "h2 = h @ ip @ bp"
      "(src = [] \<and> ip = [] \<and> d_image d2 = None) \<or>
       (\<exists>b'. src \<noteq> [] \<and> ip = [Some b'] \<and> length b' = length src \<and> d_image d2 = Some (length h))"
      "(bp = [] \<and> d_binarized d2 = None) \<or>
       (\<exists>bd. bp = [Some bd] \<and> d_binarized d2 = Some (length h + length ip))"
      "d_flags d2 = cleared fl (flags self)"
      by (rule thread_shape [OF inv src(1) snap th])
    show ?thesis
      unfolding shape(1) using image_inv_data_old [OF inv, of "ip @ bp"] by simp
  qed
  have fields: "d_width d = int (unat (width self))" "d_height d = int (unat (height self))"
    "d_ppmm d = ppmm self" "d_flags d = flags self" "d_minutiae d = None" "d_binarized d = None"
    by (simp_all add: d_def work_item_def)
  have fresh: "d_image d = None \<or> d_image d = Some (length h)"
    by (simp add: d_def work_item_def)
  have old: "take (length h) h1 = h" by (simp add: h1_def)
  have "fp_image_detect_minutiae h self = Some (h1, d) \<and>
           d_width d = int (unat (width self)) \<and> d_height d = int (unat (height self)) \<and>
           d_ppmm d = ppmm self \<and> d_flags d = flags self \<and>
           d_minutiae d = None \<and> d_binarized d = None \<and>
           deref h1 (d_image d) = deref h (data self) \<and>
           (d_image d = None \<or> d_image d = Some (length h)) \<and>
           take (length h) h1 = h \<and>
           (\<forall>fl gm h2 d2 r. fp_image_detect_minutiae_thread_func fl gm h1 d = Some (h2, d2, r) \<longrightarrow>
              take (length h) h2 = h \<and> deref h2 (data self) = deref h (data self))"
    using snap fields copy fresh old frame by blast
  then show ?thesis by blast
qed

theorem cancelled_detection_leaves_image_untouched_witness:
  "\<exists>h4. detect_minutiae_task
       \<lparr>FPI_IMAGE_V_FLIPPED = 1, FPI_IMAGE_H_FLIPPED = 2, FPI_IMAGE_COLORS_INVERTED = 4\<rparr>
       (\<lambda>b w h p. \<lparr>e_status = 0, e_bdata = Some [0, 0, 0, 0, 0, 0],
                    e_minutiae = Some \<lparr>m_num = 1, m_list = [(0, 1), (5, 5)]\<rparr>\<rparr>)
       [Some [1, 2, 3, 4, 5, 6]]
       \<lparr>width = 3, height = 2, ppmm = 0, flags = 7, data = Some 0, binarized = None, minutiae = None\<rparr>
       (Some True)
     = Some (h4,
         \<lparr>width = 3, height = 2, ppmm = 0, flags = 7, data = Some 0, binarized = None, minutiae = None\<rparr>,
         Returned_TRUE) \<and>
     take (length [Some [1, 2, 3, 4, 5, 6 :: guint8]]) h4 = [Some [1, 2, 3, 4, 5, 6]] \<and>
     (\<forall>b \<in> set (drop (length [Some [1, 2, 3, 4, 5, 6 :: guint8]]) h4). b = None) \<and>
     deref h4 (data \<lparr>width = 3, height = 2, ppmm = 0, flags = 7, data = Some 0, binarized = None,
                     minutiae = None\<rparr>)
       = deref [Some [1, 2, 3, 4, 5, 6]]
           (data \<lparr>width = 3, height = 2, ppmm = 0, flags = 7, data = Some 0, binarized = None,
                  minutiae = None\<rparr>)"
  by (rule cancelled_detection_leaves_image_untouched [OF w_inv w_snap w_thread])

theorem snapshot_is_isolated_witness:
  "fp_image_detect_minutiae [Some [1, 2, 3, 4, 5, 6]]
     \<lparr>width = 3, height = 2, ppmm = 0, flags = 7, data = Some 0, binarized = None, minutiae = None\<rparr>
   = Some ([Some [1, 2, 3, 4, 5, 6], Some [1, 2, 3, 4, 5, 6]],
       \<lparr>d_minutiae = None, d_width = 3, d_height = 2, d_ppmm = 0, d_flags = 7,
        d_image = Some 1, d_binarized = None\<rparr>) \<and>
   take (length [Some [1, 2, 3, 4, 5, 6 :: guint8]])
     [Some [1, 2, 3, 4, 5, 6], Some [249, 250, 251, 252, 253, 254], Some [0, 0, 0, 0, 0, 0]]
   = [Some [1, 2, 3, 4, 5, 6 :: guint8]]"
proof -
  let ?h0 = "[Some [1, 2, 3, 4, 5, 6 :: guint8]]"
  let ?self = "\<lparr>width = 3, height = 2, ppmm = 0, flags = 7, data = Some 0, binarized = None,
      minutiae = None\<rparr>"
  from snapshot_is_isolated [OF w_inv] obtain h1 d where
    a: "fp_image_detect_minutiae ?h0 ?self = Some (h1, d)"
    and b: "\<forall>fl gm h2 d2 r. fp_image_detect_minutiae_thread_func fl gm h1 d = Some (h2, d2, r) \<longrightarrow>
              take (length ?h0) h2 = ?h0 \<and> deref h2 (data ?self) = deref ?h0 (data ?self)"
    by blast
  from a w_snap have e: "h1 = [Some [1, 2, 3, 4, 5, 6], Some [1, 2, 3, 4, 5, 6]]"
    "d = \<lparr>d_minutiae = None, d_width = 3, d_height = 2, d_ppmm = 0, d_flags = 7,
        d_image = Some 1, d_binarized = None\<rparr>"
    by simp_all
  from b [unfolded e, rule_format, OF w_thread] w_snap show ?thesis
    by (intro conjI) blast+
qed


subsection \<open>The invariant of an image\<close>

lemma image_inv_append:
  assumes "image_inv h img"
  shows "image_inv (h @ ws) img"
proof -
  have old: "block_at (h @ ws) a = block_at h a" if "block_at h a \<noteq> None" for a
  proof -
    from that have "a < length h" by (auto simp: block_at_def split: if_splits)
    then show ?thesis by (rule block_at_append_old)
  qed
  show ?thesis
    using assms unfolding image_inv_def
    by (auto split: option.splits simp: old)
qed

lemma cb_commit_cases:
  assumes "fp_image_detect_minutiae_cb h img d c = Some (h', img', d')" "c \<noteq> Some True"
  obtains h1 ms arr where "g_free h (data img) = Some h1" "g_free h1 (binarized img) = Some h'"
    "d_minutiae d = Some ms"
    "img' = img\<lparr>flags := d_flags d, data := d_image d, binarized := d_binarized d,
                 minutiae := Some arr\<rparr>"
    "d' = d\<lparr>d_image := None, d_binarized := None, d_minutiae := Some (ms\<lparr>m_num := 0\<rparr>)\<rparr>"
proof -
  have c: "(case c of None \<Rightarrow> True | Some cancelled \<Rightarrow> \<not> cancelled)"
    using assms(2) by (cases c) auto
  from assms(1) show ?thesis
    unfolding fp_image_detect_minutiae_cb_def
    by (simp only: c if_True Let_def) (auto simp: bind_eq_Some_conv intro: that split: if_splits)
qed

lemma g_free_old_block:
  assumes "g_free (h @ ws) p = Some h'" "p = None \<or> (\<exists>a. p = Some a \<and> a < length h)"
  shows "\<exists>hh. h' = hh @ ws \<and> length hh = length h"
proof (cases p)
  case None
  then show ?thesis using assms(1) by (auto simp: g_free_def)
next
  case (Some a)
  then have a: "a < length h" using assms(2) by simp
  from assms(1) Some have "h' = (h @ ws)[a := None]"
    by (auto simp: g_free_def split: option.splits)
  then have "h' = h[a := None] @ ws" using a by (simp add: list_update_append)
  then show ?thesis by simp
qed

lemma image_inv_pointers:
  assumes "image_inv h img"
  shows "data img = None \<or> (\<exists>a. data img = Some a \<and> a < length h)"
    "binarized img = None \<or> (\<exists>a. binarized img = Some a \<and> a < length h)"
  using assms unfolding image_inv_def
  by (auto split: option.splits if_splits simp: block_at_def)

lemma task_cases:
  assumes "detect_minutiae_task fl gm h self c = Some (h4, self', r)"
  obtains h1 d h2 d2 h3 d3 where "fp_image_detect_minutiae h self = Some (h1, d)"
    "fp_image_detect_minutiae_thread_func fl gm h1 d = Some (h2, d2, r)"
    "fp_image_detect_minutiae_cb h2 self d2 c = Some (h3, self', d3)"
    "fp_image_detect_minutiae_free h3 d3 = Some h4"
  using assms unfolding detect_minutiae_task_def
  by (auto simp: bind_eq_Some_conv)

lemma free_nothing:
  "d_image d = None \<Longrightarrow> d_binarized d = None \<Longrightarrow> fp_image_detect_minutiae_free h d = Some h"
  by (simp add: fp_image_detect_minutiae_free_def g_free_NULL)

lemma task_preserves_image_inv:
  assumes inv: "image_inv h self"
    and task: "detect_minutiae_task fl gm h self c = Some (h4, self', r)"
  shows "image_inv h4 self'"
proof -
  obtain src where src: "deref h (data self) = Some src"
    "length src = unat (width self) * unat (height self)"
    "unat (width self * height self) = unat (width self) * unat (height self)"
    "unat (width self) \<le> 65535" "unat (height self) \<le> 65535"
    by (rule image_inv_bytes [OF inv])
  obtain h1 d h2 d2 h3 d3 where snap: "fp_image_detect_minutiae h self = Some (h1, d)"
    and thread: "fp_image_detect_minutiae_thread_func fl gm h1 d = Some (h2, d2, r)"
    and cb: "fp_image_detect_minutiae_cb h2 self d2 c = Some (h3, self', d3)"
    and free: "fp_image_detect_minutiae_free h3 d3 = Some h4"
    by (rule task_cases [OF task])
  obtain ip bp where shape: "h2 = h @ ip @ bp"
    "(src = [] \<and> ip = [] \<and> d_image d2 = None) \<or>
     (\<exists>b'. src \<noteq> [] \<and> ip = [Some b'] \<and> length b' = length src \<and> d_image d2 = Some (length h))"
    "(bp = [] \<and> d_binarized d2 = None) \<or>
     (\<exists>bd. bp = [Some bd] \<and> d_binarized d2 = Some (length h + length ip))"
    "d_flags d2 = cleared fl (flags self)"
    by (rule thread_shape [OF inv src(1) snap thread])
  show ?thesis
  proof (cases "c = Some True")
    case True
    then have same: "h3 = h2" "self' = self" "d3 = d2"
      using cb by (simp_all add: cb_cancelled)
    from shape(2) have i: "(ip = [] \<and> d_image d2 = None) \<or> (\<exists>b'. ip = [Some b'] \<and> d_image d2 = Some (length h))"
      by blast
    have "fp_image_detect_minutiae_free h2 d2 = Some (h @ replicate (length ip + length bp) None)"
      by (rule free_shape [OF shape(1) i shape(3)])
    then have "h4 = h @ replicate (length ip + length bp) None"
      using free same by simp
    then show ?thesis
      using image_inv_append [OF inv] same by simp
  next
    case False
    obtain g1 ms arr where f1: "g_free h2 (data self) = Some g1"
      and f2: "g_free g1 (binarized self) = Some h3"
      and "d_minutiae d2 = Some ms"
      and self': "self' = self\<lparr>flags := d_flags d2, data := d_image d2, binarized := d_binarized d2,
                 minutiae := Some arr\<rparr>"
      and d3: "d3 = d2\<lparr>d_image := None, d_binarized := None, d_minutiae := Some (ms\<lparr>m_num := 0\<rparr>)\<rparr>"
      by (rule cb_commit_cases [OF cb False])
    from g_free_old_block [OF f1 [unfolded shape(1)] image_inv_pointers(1) [OF inv]]
    obtain hh where hh: "g1 = hh @ ip @ bp" "length hh = length h" by blast
    have "binarized self = None \<or> (\<exists>a. binarized self = Some a \<and> a < length hh)"
      using image_inv_pointers(2) [OF inv] hh(2) by simp
    from g_free_old_block [OF f2 [unfolded hh(1)] this]
    obtain hk where hk: "h3 = hk @ ip @ bp" "length hk = length h" using hh(2) by auto
    have h4: "h4 = hk @ ip @ bp"
      using free free_nothing [of d3 h3] d3 hk by simp
    have rng: "param_in_range PROP_WIDTH (width self')" "param_in_range PROP_HEIGHT (height self')"
      using inv self' by (simp_all add: image_inv_def)
    have dims: "width self' = width self" "height self' = height self"
      using self' by simp_all
    have dpart: "(case data self' of
         None \<Rightarrow> unat (width self') * unat (height self') = 0
       | Some a \<Rightarrow> (case block_at h4 a of None \<Rightarrow> False
                    | Some bytes \<Rightarrow> length bytes = unat (width self') * unat (height self')))"
      using shape(2)
    proof
      assume "src = [] \<and> ip = [] \<and> d_image d2 = None"
      then show ?thesis using self' src(2) by simp
    next
      assume "\<exists>b'. src \<noteq> [] \<and> ip = [Some b'] \<and> length b' = length src \<and> d_image d2 = Some (length h)"
      then obtain b' where b: "ip = [Some b']" "length b' = length src" "d_image d2 = Some (length h)"
        by blast
      have "block_at h4 (length h) = Some b'"
        unfolding h4 b(1) using hk(2) by (simp add: block_at_def nth_append)
      then show ?thesis using self' b src(2) by simp
    qed
    have bpart: "(case binarized self' of
         None \<Rightarrow> True
       | Some b \<Rightarrow> (case block_at h4 b of None \<Rightarrow> False | Some bytes \<Rightarrow> data self' \<noteq> Some b))"
      using shape(3)
    proof
      assume "bp = [] \<and> d_binarized d2 = None"
      then show ?thesis using self' by simp
    next
      assume "\<exists>bd. bp = [Some bd] \<and> d_binarized d2 = Some (length h + length ip)"
      then obtain bd where b: "bp = [Some bd]" "d_binarized d2 = Some (length h + length ip)"
        by blast
      have live: "block_at h4 (length h + length ip) = Some bd"
        unfolding h4 b(1) using hk(2) by (simp add: block_at_def nth_append)
      have ne: "data self' \<noteq> Some (length h + length ip)"
        using shape(2) self' by auto
      show ?thesis using self' b live ne by simp
    qed
    show ?thesis
      unfolding image_inv_def using rng dpart bpart by (simp only: simp_thms)
  qed
qed

lemma param_in_range_iff:
  "param_in_range PROP_WIDTH v = (v \<le> 65535)" "param_in_range PROP_HEIGHT v = (v \<le> 65535)"
  by (simp_all add: param_in_range_def G_MAXUINT16_def)

lemma g_param_value_validate_eq:
  "g_param_value_validate
     \<lparr>minimum = 0, maximum = 65535, default_value = 0, construct_only = True, lax_validation = False\<rparr> v
   = (if v \<le> 65535 then (v, False) else (65535, True))"
  by (auto simp: g_param_value_validate_def Let_def)

lemma object_set_property_eq:
  "object_set_property self PROP_WIDTH v = (if v \<le> 65535 then self\<lparr>width := v\<rparr> else self)"
  "object_set_property self PROP_HEIGHT v = (if v \<le> 65535 then self\<lparr>height := v\<rparr> else self)"
  "object_set_property self PROP_0 v = self"
  by (simp_all add: object_set_property_def G_MAXUINT16_def g_param_value_validate_eq)

lemma g_object_set_property_refused: "g_object_set_property img p v = img"
  by (cases p) (simp_all add: g_object_set_property_def)

lemma fp_image_new_eq:
  "fp_image_new h w ht =
     fp_image_constructed h
       (fp_image_init\<lparr>width := if w \<le> 65535 then w else 0,
                       height := if ht \<le> 65535 then ht else 0\<rparr>)"
  by (simp add: fp_image_new_def object_set_property_eq fp_image_init_def)

lemma fp_image_constructed_init:
  "fp_image_constructed h (fp_image_init\<lparr>width := w, height := ht\<rparr>) =
     (if unat (w * ht) = 0
      then (h, \<lparr>width = w, height = ht, ppmm = 0, flags = 0, data = None, binarized = None,
                minutiae = None\<rparr>)
      else (h @ [Some (replicate (unat (w * ht)) 0)],
            \<lparr>width = w, height = ht, ppmm = 0, flags = 0, data = Some (length h), binarized = None,
             minutiae = None\<rparr>))"
  by (simp add: fp_image_constructed_def fp_image_init_def g_malloc0_def)

lemma fp_image_constructed_inv:
  assumes "param_in_range PROP_WIDTH w" "param_in_range PROP_HEIGHT ht"
  shows "case fp_image_constructed h (fp_image_init\<lparr>width := w, height := ht\<rparr>) of (h', img) \<Rightarrow>
           width img = w \<and> height img = ht \<and>
           deref h' (data img) = Some (replicate (unat w * unat ht) 0) \<and>
           fp_image_get_data img = (data img, unat w * unat ht) \<and> image_inv h' img"
proof -
  have p: "unat (w * ht) = unat w * unat ht"
    by (rule dims_product(1) [OF in_range_le(1) [OF assms(1)] in_range_le(2) [OF assms(2)]])
  show ?thesis
  proof (cases "unat (w * ht) = 0")
    case True
    then show ?thesis
      unfolding fp_image_constructed_init using assms p
      by (simp add: deref_def fp_image_get_data_def image_inv_def)
  next
    case False
    then show ?thesis
      unfolding fp_image_constructed_init using assms p
      by (simp add: deref_def fp_image_get_data_def image_inv_def block_at_def)
  qed
qed

lemma fp_image_new_inv:
  assumes "param_in_range PROP_WIDTH w" "param_in_range PROP_HEIGHT ht"
  shows "case fp_image_new h w ht of (h', img) \<Rightarrow>
           width img = w \<and> height img = ht \<and>
           deref h' (data img) = Some (replicate (unat w * unat ht) 0) \<and>
           fp_image_get_data img = (data img, unat w * unat ht) \<and> image_inv h' img"
proof -
  have "w \<le> 65535" "ht \<le> 65535"
    using assms by (simp_all add: param_in_range_iff)
  then have "fp_image_new h w ht = fp_image_constructed h (fp_image_init\<lparr>width := w, height := ht\<rparr>)"
    by (simp add: fp_image_new_eq)
  then show ?thesis
    using fp_image_constructed_inv [OF assms] by simp
qed

lemma fp_image_new_any:
  "case fp_image_new h w ht of (h', img) \<Rightarrow>
     width img = (if w \<le> 65535 then w else 0) \<and>
     height img = (if ht \<le> 65535 then ht else 0) \<and>
     deref h' (data img) = Some (replicate (unat (width img) * unat (height img)) 0) \<and>
     image_inv h' img"
proof -
  have r: "param_in_range PROP_WIDTH (if w \<le> 65535 then w else 0)"
    "param_in_range PROP_HEIGHT (if ht \<le> 65535 then ht else 0)"
    by (simp_all add: param_in_range_iff)
  show ?thesis
    using fp_image_constructed_inv [OF r, where h = h] unfolding fp_image_new_eq
    by (auto split: prod.splits)
qed

text \<open>
  Claim C8. An image created with dimensions in the range of its properties has a
  zeroed raw buffer of width times height bytes; whenever the invariant of an image
  holds its raw buffer has exactly that many bytes, which is the length
  \<^verbatim>\<open>fp_image_get_data\<close> reports; and a detection task, committed or cancelled, keeps the
  invariant.
\<close>

theorem raw_buffer_has_width_times_height_bytes:
  "(param_in_range PROP_WIDTH w \<and> param_in_range PROP_HEIGHT ht \<longrightarrow>
      (case fp_image_new h0 w ht of (h', img) \<Rightarrow>
         width img = w \<and> height img = ht \<and>
         deref h' (data img) = Some (replicate (unat w * unat ht) 0) \<and>
         fp_image_get_data img = (data img, unat w * unat ht) \<and> image_inv h' img)) \<and>
   (image_inv h self \<longrightarrow>
      (\<exists>bytes. deref h (data self) = Some bytes \<and>
         length bytes = unat (width self) * unat (height self)) \<and>
      fp_image_get_data self = (data self, unat (width self) * unat (height self))) \<and>
   (image_inv h self \<and> detect_minutiae_task fl gm h self c = Some (h4, self', r) \<longrightarrow>
      image_inv h4 self')"
proof (intro conjI impI)
  assume "param_in_range PROP_WIDTH w \<and> param_in_range PROP_HEIGHT ht"
  then have a: "param_in_range PROP_WIDTH w" "param_in_range PROP_HEIGHT ht" by simp_all
  show "case fp_image_new h0 w ht of (h', img) \<Rightarrow>
         width img = w \<and> height img = ht \<and>
         deref h' (data img) = Some (replicate (unat w * unat ht) 0) \<and>
         fp_image_get_data img = (data img, unat w * unat ht) \<and> image_inv h' img"
    by (rule fp_image_new_inv [OF a])
next
  assume inv: "image_inv h self"
  obtain src where src: "deref h (data self) = Some src"
    "length src = unat (width self) * unat (height self)"
    "unat (width self * height self) = unat (width self) * unat (height self)"
    "unat (width self) \<le> 65535" "unat (height self) \<le> 65535"
    by (rule image_inv_bytes [OF inv])
  show "\<exists>bytes. deref h (data self) = Some bytes \<and>
         length bytes = unat (width self) * unat (height self)"
    using src(1,2) by blast
  show "fp_image_get_data self = (data self, unat (width self) * unat (height self))"
    by (simp add: fp_image_get_data_def src(3))
next
  assume "image_inv h self \<and> detect_minutiae_task fl gm h self c = Some (h4, self', r)"
  then show "image_inv h4 self'"
    using task_preserves_image_inv by blast
qed

lemma w_task: "detect_minutiae_task
     \<lparr>FPI_IMAGE_V_FLIPPED = 1, FPI_IMAGE_H_FLIPPED = 2, FPI_IMAGE_COLORS_INVERTED = 4\<rparr>
     (\<lambda>b w h p. \<lparr>e_status = 0, e_bdata = Some [0, 0, 0, 0, 0, 0],
                  e_minutiae = Some \<lparr>m_num = 1, m_list = [(0, 1), (5, 5)]\<rparr>\<rparr>)
     [Some [1, 2, 3, 4, 5, 6]]
     \<lparr>width = 3, height = 2, ppmm = 0, flags = 7, data = Some 0, binarized = None, minutiae = None\<rparr>
     None
   = Some ([None, Some [249, 250, 251, 252, 253, 254], Some [0, 0, 0, 0, 0, 0]],
       \<lparr>width = 3, height = 2, ppmm = 0, flags = 0, data = Some 1, binarized = Some 2,
        minutiae = Some [(0, 1)]\<rparr>, Returned_TRUE)"
  by code_simp

lemma w_range: "param_in_range PROP_WIDTH 3 \<and> param_in_range PROP_HEIGHT 2"
  by (simp add: param_in_range_def G_MAXUINT16_def)

theorem raw_buffer_has_width_times_height_bytes_witness:
  "fp_image_new [] 3 2 =
     ([Some [0, 0, 0, 0, 0, 0]],
      \<lparr>width = 3, height = 2, ppmm = 0, flags = 0, data = Some 0, binarized = None, minutiae = None\<rparr>) \<and>
   image_inv [Some [0, 0, 0, 0, 0, 0]]
      \<lparr>width = 3, height = 2, ppmm = 0, flags = 0, data = Some 0, binarized = None, minutiae = None\<rparr> \<and>
   fp_image_get_data
      \<lparr>width = 3, height = 2, ppmm = 0, flags = 7, data = Some 0, binarized = None, minutiae = None\<rparr>
     = (Some 0, 6) \<and>
   image_inv [None, Some [249, 250, 251, 252, 253, 254], Some [0, 0, 0, 0, 0, 0]]
      \<lparr>width = 3, height = 2, ppmm = 0, flags = 0, data = Some 1, binarized = Some 2,
        minutiae = Some [(0, 1)]\<rparr>"
proof -
  have new: "fp_image_new [] 3 2 =
     ([Some [0, 0, 0, 0, 0, 0]],
      \<lparr>width = 3, height = 2, ppmm = 0, flags = 0, data = Some 0, binarized = None, minutiae = None\<rparr>)"
    by code_simp
  note t = raw_buffer_has_width_times_height_bytes [of 3 2 "[]" "[Some [1, 2, 3, 4, 5, 6]]"
      "\<lparr>width = 3, height = 2, ppmm = 0, flags = 7, data = Some 0, binarized = None, minutiae = None\<rparr>"
      "\<lparr>FPI_IMAGE_V_FLIPPED = 1, FPI_IMAGE_H_FLIPPED = 2, FPI_IMAGE_COLORS_INVERTED = 4\<rparr>"
      "\<lambda>b w h p. \<lparr>e_status = 0, e_bdata = Some [0, 0, 0, 0, 0, 0],
                  e_minutiae = Some \<lparr>m_num = 1, m_list = [(0, 1), (5, 5)]\<rparr>\<rparr>"
      None
      "[None, Some [249, 250, 251, 252, 253, 254], Some [0, 0, 0, 0, 0, 0]]"
      "\<lparr>width = 3, height = 2, ppmm = 0, flags = 0, data = Some 1, binarized = Some 2,
        minutiae = Some [(0, 1)]\<rparr>" Returned_TRUE]
  from t w_range have 1: "image_inv [Some [0, 0, 0, 0, 0, 0]]
      \<lparr>width = 3, height = 2, ppmm = 0, flags = 0, data = Some 0, binarized = None, minutiae = None\<rparr>"
    unfolding new by simp
  from t w_inv have 2: "fp_image_get_data
      \<lparr>width = 3, height = 2, ppmm = 0, flags = 7, data = Some 0, binarized = None, minutiae = None\<rparr>
     = (Some 0, 6)"
    by simp
  from t w_inv w_task have 3: "image_inv [None, Some [249, 250, 251, 252, 253, 254], Some [0, 0, 0, 0, 0, 0]]
      \<lparr>width = 3, height = 2, ppmm = 0, flags = 0, data = Some 1, binarized = Some 2,
        minutiae = Some [(0, 1)]\<rparr>"
    by blast
  from new 1 2 3 show ?thesis by blast
qed

lemma cb_keeps_dimensions:
  assumes "fp_image_detect_minutiae_cb h img d c = Some (h', img', d')"
  shows "width img' = width img \<and> height img' = height img"
proof (cases "c = Some True")
  case True
  then show ?thesis using assms by (simp add: cb_cancelled)
next
  case False
  obtain g1 ms arr where "g_free h (data img) = Some g1" "g_free g1 (binarized img) = Some h'"
    "d_minutiae d = Some ms"
    "img' = img\<lparr>flags := d_flags d, data := d_image d, binarized := d_binarized d,
                 minutiae := Some arr\<rparr>"
    "d' = d\<lparr>d_image := None, d_binarized := None, d_minutiae := Some (ms\<lparr>m_num := 0\<rparr>)\<rparr>"
    by (rule cb_commit_cases [OF assms False])
  then show ?thesis by simp
qed

lemma task_keeps_dimensions:
  assumes "detect_minutiae_task fl gm h self c = Some (h4, self', r)"
  shows "width self' = width self \<and> height self' = height self"
proof -
  obtain h1 d h2 d2 h3 d3 where "fp_image_detect_minutiae h self = Some (h1, d)"
    "fp_image_detect_minutiae_thread_func fl gm h1 d = Some (h2, d2, r)"
    "fp_image_detect_minutiae_cb h2 self d2 c = Some (h3, self', d3)"
    "fp_image_detect_minutiae_free h3 d3 = Some h4"
    by (rule task_cases [OF assms])
  then show ?thesis
    using cb_keeps_dimensions by blast
qed

lemma image_call_step_inv:
  assumes inv: "image_inv h img"
    and step: "image_call_step fl (h, img) call = Some (h', img')"
  shows "image_inv h' img' \<and> width img' = width img \<and> height img' = height img"
proof (cases call)
  case (Detect_minutiae gm c)
  with step obtain r where t: "detect_minutiae_task fl gm h img c = Some (h', img', r)"
    by (auto split: option.splits)
  show ?thesis
    using task_preserves_image_inv [OF inv t] task_keeps_dimensions [OF t] by simp
next
  case (Set_property p v)
  with step have "h' = h" "img' = img"
    by (simp_all add: g_object_set_property_refused)
  then show ?thesis
    using inv by simp
qed

lemma image_calls_inv:
  assumes "image_inv h img" "image_calls fl (h, img) calls = Some (h', img')"
  shows "image_inv h' img' \<and> width img' = width img \<and> height img' = height img"
  using assms
proof (induction calls arbitrary: h img)
  case Nil
  then show ?case by simp
next
  case (Cons call calls)
  from Cons.prems(2) obtain h1 img1 where
    s: "image_call_step fl (h, img) call = Some (h1, img1)"
    and rest: "image_calls fl (h1, img1) calls = Some (h', img')"
    by (auto split: option.splits)
  from image_call_step_inv [OF Cons.prems(1) s]
  have one: "image_inv h1 img1" "width img1 = width img" "height img1 = height img"
    by simp_all
  from Cons.IH [OF one(1) rest] one(2,3) show ?case
    by simp
qed

text \<open>
  Claim C10. The width and height properties are construct-only with the range 0 to
  65535 (\<^verbatim>\<open>G_MAXUINT16\<close>). Whatever two values \<^verbatim>\<open>fp_image_new\<close> is called with, the image it
  returns has each dimension in that range (a value in the range is stored, any other
  is refused and the dimension stays 0) and a zeroed buffer of width times height bytes.
  After any sequence of detections and property settings that returns, the image has the
  dimensions it was created with: each is at most 65535, the \<^verbatim>\<open>guint\<close> product
  \<^verbatim>\<open>width * height\<close> does not wrap, is at most 65535 * 65535 and below \<open>2 ^ 32\<close> and
  \<open>2 ^ 64\<close>, and it is the length \<^verbatim>\<open>fp_image_get_data\<close> reports and the number of bytes of
  the raw buffer.
\<close>

theorem dimensions_bounded_and_product_exact:
  "map_option (\<lambda>ps. (minimum ps, maximum ps, construct_only ps, lax_validation ps))
     (properties PROP_WIDTH) = Some (0, 65535, True, False) \<and>
   map_option (\<lambda>ps. (minimum ps, maximum ps, construct_only ps, lax_validation ps))
     (properties PROP_HEIGHT) = Some (0, 65535, True, False) \<and>
   (case fp_image_new h0 w ht of (h1, img0) \<Rightarrow>
      width img0 = (if w \<le> 65535 then w else 0) \<and>
      height img0 = (if ht \<le> 65535 then ht else 0) \<and>
      deref h1 (data img0) = Some (replicate (unat (width img0) * unat (height img0)) 0) \<and>
      (image_calls fl (h1, img0) calls = Some (h, img) \<longrightarrow>
         width img = width img0 \<and> height img = height img0 \<and>
         unat (width img) \<le> 65535 \<and> unat (height img) \<le> 65535 \<and>
         unat (width img * height img) = unat (width img) * unat (height img) \<and>
         unat (width img) * unat (height img) \<le> 65535 * 65535 \<and>
         unat (width img) * unat (height img) < 2 ^ 32 \<and>
         unat (width img) * unat (height img) < 2 ^ 64 \<and>
         fp_image_get_data img = (data img, unat (width img) * unat (height img)) \<and>
         (\<exists>bytes. deref h (data img) = Some bytes \<and>
            length bytes = unat (width img) * unat (height img))))"
proof (intro conjI)
  show "map_option (\<lambda>ps. (minimum ps, maximum ps, construct_only ps, lax_validation ps))
     (properties PROP_WIDTH) = Some (0, 65535, True, False)"
    by (simp add: G_MAXUINT16_def)
  show "map_option (\<lambda>ps. (minimum ps, maximum ps, construct_only ps, lax_validation ps))
     (properties PROP_HEIGHT) = Some (0, 65535, True, False)"
    by (simp add: G_MAXUINT16_def)
  obtain h1 img0 where new: "fp_image_new h0 w ht = (h1, img0)"
    by (cases "fp_image_new h0 w ht")
  from fp_image_new_any [where h = h0 and w = w and ht = ht]
  have c: "width img0 = (if w \<le> 65535 then w else 0)"
    "height img0 = (if ht \<le> 65535 then ht else 0)"
    "deref h1 (data img0) = Some (replicate (unat (width img0) * unat (height img0)) 0)"
    and inv0: "image_inv h1 img0"
    unfolding new by simp_all
  have later: "width img = width img0 \<and> height img = height img0 \<and>
         unat (width img) \<le> 65535 \<and> unat (height img) \<le> 65535 \<and>
         unat (width img * height img) = unat (width img) * unat (height img) \<and>
         unat (width img) * unat (height img) \<le> 65535 * 65535 \<and>
         unat (width img) * unat (height img) < 2 ^ 32 \<and>
         unat (width img) * unat (height img) < 2 ^ 64 \<and>
         fp_image_get_data img = (data img, unat (width img) * unat (height img)) \<and>
         (\<exists>bytes. deref h (data img) = Some bytes \<and>
            length bytes = unat (width img) * unat (height img))"
    if run: "image_calls fl (h1, img0) calls = Some (h, img)"
  proof -
    from image_calls_inv [OF inv0 run]
    have inv: "image_inv h img" and same: "width img = width img0" "height img = height img0"
      by simp_all
    obtain src where src: "deref h (data img) = Some src"
      "length src = unat (width img) * unat (height img)"
      "unat (width img * height img) = unat (width img) * unat (height img)"
      "unat (width img) \<le> 65535" "unat (height img) \<le> 65535"
      by (rule image_inv_bytes [OF inv])
    have b: "unat (width img) * unat (height img) \<le> 65535 * 65535"
      by (rule dims_product(2) [OF src(4,5)])
    have g: "fp_image_get_data img = (data img, unat (width img) * unat (height img))"
      by (simp add: fp_image_get_data_def src(3))
    have e: "\<exists>bytes. deref h (data img) = Some bytes \<and>
            length bytes = unat (width img) * unat (height img)"
      using src(1,2) by blast
    have b32: "unat (width img) * unat (height img) < 2 ^ 32"
      and b64: "unat (width img) * unat (height img) < 2 ^ 64"
      using b by simp_all
    from same src(3,4,5) b b32 b64 g e show ?thesis
      by (simp only: simp_thms)
  qed
  show "case fp_image_new h0 w ht of (h1, img0) \<Rightarrow>
      width img0 = (if w \<le> 65535 then w else 0) \<and>
      height img0 = (if ht \<le> 65535 then ht else 0) \<and>
      deref h1 (data img0) = Some (replicate (unat (width img0) * unat (height img0)) 0) \<and>
      (image_calls fl (h1, img0) calls = Some (h, img) \<longrightarrow>
         width img = width img0 \<and> height img = height img0 \<and>
         unat (width img) \<le> 65535 \<and> unat (height img) \<le> 65535 \<and>
         unat (width img * height img) = unat (width img) * unat (height img) \<and>
         unat (width img) * unat (height img) \<le> 65535 * 65535 \<and>
         unat (width img) * unat (height img) < 2 ^ 32 \<and>
         unat (width img) * unat (height img) < 2 ^ 64 \<and>
         fp_image_get_data img = (data img, unat (width img) * unat (height img)) \<and>
         (\<exists>bytes. deref h (data img) = Some bytes \<and>
            length bytes = unat (width img) * unat (height img)))"
    unfolding new prod.case using c later by blast
qed

lemma w_new: "fp_image_new [] 3 2 = ([Some [0, 0, 0, 0, 0, 0]], \<lparr>width = 3, height = 2, ppmm = 0, flags = 0, data = Some 0, binarized = None, minutiae = None\<rparr>)"
  by code_simp

lemma w_new_refused: "fp_image_new [] 70000 2 = ([], \<lparr>width = 0, height = 2, ppmm = 0, flags = 0, data = None, binarized = None, minutiae = None\<rparr>)"
  by code_simp

lemma w_calls:
  "image_calls \<lparr>FPI_IMAGE_V_FLIPPED = 1, FPI_IMAGE_H_FLIPPED = 2, FPI_IMAGE_COLORS_INVERTED = 4\<rparr>
     ([Some [0, 0, 0, 0, 0, 0]], \<lparr>width = 3, height = 2, ppmm = 0, flags = 0, data = Some 0, binarized = None, minutiae = None\<rparr>)
     [Set_property PROP_WIDTH 9,
      Detect_minutiae (\<lambda>b w h p. \<lparr>e_status = 0, e_bdata = Some [255, 0, 255, 0, 255, 0],
                  e_minutiae = Some \<lparr>m_num = 1, m_list = [(0, 1), (5, 5)]\<rparr>\<rparr>) None,
      Set_property PROP_HEIGHT 1]
   = Some ([None, Some [0, 0, 0, 0, 0, 0], Some [255, 0, 255, 0, 255, 0]],
       \<lparr>width = 3, height = 2, ppmm = 0, flags = 0, data = Some 1, binarized = Some 2,
        minutiae = Some [(0, 1)]\<rparr>)"
  by code_simp

theorem dimensions_bounded_and_product_exact_witness:
  "fp_image_new [] 3 2 = ([Some [0, 0, 0, 0, 0, 0]], \<lparr>width = 3, height = 2, ppmm = 0, flags = 0, data = Some 0, binarized = None, minutiae = None\<rparr>) \<and>
   image_calls \<lparr>FPI_IMAGE_V_FLIPPED = 1, FPI_IMAGE_H_FLIPPED = 2, FPI_IMAGE_COLORS_INVERTED = 4\<rparr>
     ([Some [0, 0, 0, 0, 0, 0]], \<lparr>width = 3, height = 2, ppmm = 0, flags = 0, data = Some 0, binarized = None, minutiae = None\<rparr>)
     [Set_property PROP_WIDTH 9,
      Detect_minutiae (\<lambda>b w h p. \<lparr>e_status = 0, e_bdata = Some [255, 0, 255, 0, 255, 0],
                  e_minutiae = Some \<lparr>m_num = 1, m_list = [(0, 1), (5, 5)]\<rparr>\<rparr>) None,
      Set_property PROP_HEIGHT 1]
   = Some ([None, Some [0, 0, 0, 0, 0, 0], Some [255, 0, 255, 0, 255, 0]],
       \<lparr>width = 3, height = 2, ppmm = 0, flags = 0, data = Some 1, binarized = Some 2,
        minutiae = Some [(0, 1)]\<rparr>) \<and>
   width \<lparr>width = 3, height = 2, ppmm = 0, flags = 0, data = Some 1, binarized = Some 2,
        minutiae = Some [(0, 1)]\<rparr> = 3 \<and>
   unat (width \<lparr>width = 3, height = 2, ppmm = 0, flags = 0, data = Some 1, binarized = Some 2,
        minutiae = Some [(0, 1)]\<rparr> *
         height \<lparr>width = 3, height = 2, ppmm = 0, flags = 0, data = Some 1, binarized = Some 2,
        minutiae = Some [(0, 1)]\<rparr>) = 6 \<and>
   fp_image_get_data \<lparr>width = 3, height = 2, ppmm = 0, flags = 0, data = Some 1, binarized = Some 2,
        minutiae = Some [(0, 1)]\<rparr> = (Some 1, 6) \<and>
   fp_image_new [] 70000 2 = ([], \<lparr>width = 0, height = 2, ppmm = 0, flags = 0, data = None, binarized = None, minutiae = None\<rparr>)"
proof -
  let ?I0 = "\<lparr>width = 3, height = 2, ppmm = 0, flags = 0, data = Some 0, binarized = None, minutiae = None\<rparr>"
  let ?I = "\<lparr>width = 3, height = 2, ppmm = 0, flags = 0, data = Some 1, binarized = Some 2,
        minutiae = Some [(0, 1)]\<rparr>"
  note t = dimensions_bounded_and_product_exact [where ?h0.0 = "[]" and w = 3 and ht = 2
      and fl = "\<lparr>FPI_IMAGE_V_FLIPPED = 1, FPI_IMAGE_H_FLIPPED = 2, FPI_IMAGE_COLORS_INVERTED = 4\<rparr>"
      and calls = "[Set_property PROP_WIDTH 9,
      Detect_minutiae (\<lambda>b w h p. \<lparr>e_status = 0, e_bdata = Some [255, 0, 255, 0, 255, 0],
                  e_minutiae = Some \<lparr>m_num = 1, m_list = [(0, 1), (5, 5)]\<rparr>\<rparr>) None,
      Set_property PROP_HEIGHT 1]"
      and h = "[None, Some [0, 0, 0, 0, 0, 0], Some [255, 0, 255, 0, 255, 0]]" and img = ?I,
      unfolded w_new prod.case]
  from t w_calls have a: "width ?I = width ?I0"
    "unat (width ?I * height ?I) = unat (width ?I) * unat (height ?I)"
    "fp_image_get_data ?I = (data ?I, unat (width ?I) * unat (height ?I))"
    by blast+
  from a w_new w_new_refused w_calls show ?thesis
    by simp
qed


subsection \<open>The commit does not depend on the status of the extraction\<close>

text \<open>
  Claim C1 fails on the code. The callback looks at the cancellable only, never at the
  task's error. With no cancellable and an extraction that returns status 1: if the
  extraction left its outputs \<^verbatim>\<open>NULL\<close>, the commit dereferences the missing list (no
  defined result); if it left a list, the image's flags, raw buffer and minutiae are
  overwritten although the task ends with an error, and the minutiae are present with
  no binarized buffer. Only a cancelled task leaves the image alone.
\<close>

theorem failed_extraction_is_committed:
  "detect_minutiae_task
     \<lparr>FPI_IMAGE_V_FLIPPED = 1, FPI_IMAGE_H_FLIPPED = 2, FPI_IMAGE_COLORS_INVERTED = 4\<rparr>
     (\<lambda>b w h p. \<lparr>e_status = 1, e_bdata = None, e_minutiae = None\<rparr>)
     [Some [1, 2, 3, 4]]
     \<lparr>width = 2, height = 2, ppmm = 0, flags = 4, data = Some 0, binarized = None, minutiae = None\<rparr>
     None
   = None \<and>
   detect_minutiae_task
     \<lparr>FPI_IMAGE_V_FLIPPED = 1, FPI_IMAGE_H_FLIPPED = 2, FPI_IMAGE_COLORS_INVERTED = 4\<rparr>
     (\<lambda>b w h p. \<lparr>e_status = 1, e_bdata = None, e_minutiae = Some \<lparr>m_num = 0, m_list = []\<rparr>\<rparr>)
     [Some [1, 2, 3, 4]]
     \<lparr>width = 2, height = 2, ppmm = 0, flags = 4, data = Some 0, binarized = None, minutiae = None\<rparr>
     None
   = Some ([None, Some [254, 253, 252, 251]],
       \<lparr>width = 2, height = 2, ppmm = 0, flags = 0, data = Some 1, binarized = None,
        minutiae = Some []\<rparr>, G_IO_ERROR_FAILED 1) \<and>
   detect_minutiae_task
     \<lparr>FPI_IMAGE_V_FLIPPED = 1, FPI_IMAGE_H_FLIPPED = 2, FPI_IMAGE_COLORS_INVERTED = 4\<rparr>
     (\<lambda>b w h p. \<lparr>e_status = 1, e_bdata = None, e_minutiae = Some \<lparr>m_num = 0, m_list = []\<rparr>\<rparr>)
     [Some [1, 2, 3, 4]]
     \<lparr>width = 2, height = 2, ppmm = 0, flags = 4, data = Some 0, binarized = None, minutiae = None\<rparr>
     (Some True)
   = Some ([Some [1, 2, 3, 4], None],
       \<lparr>width = 2, height = 2, ppmm = 0, flags = 4, data = Some 0, binarized = None,
        minutiae = None\<rparr>, G_IO_ERROR_FAILED 1)"
  by code_simp

lemma commit_does_not_look_at_the_status:
  assumes task: "detect_minutiae_task fl gm h self c = Some (h4, self', r)"
    and c: "c \<noteq> Some True"
  shows "minutiae self' \<noteq> None"
proof -
  obtain h1 d h2 d2 h3 d3 where "fp_image_detect_minutiae h self = Some (h1, d)"
    and "fp_image_detect_minutiae_thread_func fl gm h1 d = Some (h2, d2, r)"
    and cb: "fp_image_detect_minutiae_cb h2 self d2 c = Some (h3, self', d3)"
    and "fp_image_detect_minutiae_free h3 d3 = Some h4"
    by (rule task_cases [OF task])
  obtain g1 ms arr where "g_free h2 (data self) = Some g1" "g_free g1 (binarized self) = Some h3"
    "d_minutiae d2 = Some ms"
    "self' = self\<lparr>flags := d_flags d2, data := d_image d2, binarized := d_binarized d2,
                 minutiae := Some arr\<rparr>"
    "d3 = d2\<lparr>d_image := None, d_binarized := None, d_minutiae := Some (ms\<lparr>m_num := 0\<rparr>)\<rparr>"
    by (rule cb_commit_cases [OF cb c])
  then show ?thesis by simp
qed


subsection \<open>The normalisation step\<close>

lemma cleared_bits:
  "cleared fl f AND FPI_IMAGE_H_FLIPPED fl = 0"
  "cleared fl f AND FPI_IMAGE_V_FLIPPED fl = 0"
  "cleared fl f AND FPI_IMAGE_COLORS_INVERTED fl = 0"
  unfolding cleared_def by (rule bit_eqI; simp add: bit_simps; blast)+

lemma norm_step:
  assumes "deref h p = Some b" "c \<Longrightarrow> f b = Some b'" "c \<Longrightarrow> length b' = length b"
  shows "\<exists>h'. (if c then on_buffer f h p else Some h) = Some h' \<and>
           deref h' p = Some (if c then b' else b) \<and> length h' = length h \<and>
           (\<forall>a. Some a \<noteq> p \<longrightarrow> block_at h' a = block_at h a)"
proof (cases c)
  case False
  then show ?thesis using assms(1) by simp
next
  case True
  show ?thesis
  proof (cases p)
    case None
    then have "b = []" using assms(1) by (simp add: deref_def)
    then have "b' = []" using assms(3) [OF True] by simp
    then show ?thesis
      using True None assms(2) [OF True] \<open>b = []\<close> by (simp add: on_buffer_NULL deref_def)
  next
    case (Some a)
    then have ba: "block_at h a = Some b" using assms(1) by (simp add: deref_def)
    then have al: "a < length h" by (auto simp: block_at_def split: if_splits)
    have dr: "deref h (Some a) = Some b" using assms(1) Some by simp
    have "on_buffer f h p = Some (h[a := Some b'])"
      unfolding on_buffer_def Some dr using assms(2) [OF True] ba
      by (simp add: store_def)
    moreover have "deref (h[a := Some b']) p = Some b'"
      using Some al by (simp add: deref_def block_at_def)
    moreover have "\<forall>x. Some x \<noteq> p \<longrightarrow> block_at (h[a := Some b']) x = block_at h x"
      using Some by (auto simp: block_at_def)
    ultimately show ?thesis using True by simp
  qed
qed

lemma nth_invert_bytes: "i < length bytes \<Longrightarrow> invert_bytes bytes ! i = 255 - bytes ! i"
  by (simp add: invert_bytes_def)

text \<open>
  Claim C5, for images of at most \<open>INT_MAX\<close> bytes. The normalisation replaces the bytes
  of the work item by the horizontal flip if its flag is set, then the vertical flip if
  its flag is set, then the inversion if its flag is set, leaves every other block of
  the heap alone and clears the three flags in the work item; \<^verbatim>\<open>hflip\<close> reverses each
  row, \<^verbatim>\<open>vflip\<close> reverses the order of the rows, \<^verbatim>\<open>invert_colors\<close> replaces every byte
  \<open>v\<close> by \<open>255 - v\<close>.
\<close>

theorem normalization_applies_each_set_flag_once:
  assumes p: "deref h (d_image d) = Some bytes"
    and len: "length bytes = w * ht" and mx: "int (w * ht) \<le> INT_MAX"
    and dw: "d_width d = int w" and dh: "d_height d = int ht"
  shows "(\<exists>h'. normalize_image fl h d = Some (h', d\<lparr>d_flags := cleared fl (d_flags d)\<rparr>) \<and>
            deref h' (d_image d) = Some (normalized_bytes fl (d_flags d) w ht bytes) \<and>
            length h' = length h \<and>
            (\<forall>a. Some a \<noteq> d_image d \<longrightarrow> block_at h' a = block_at h a)) \<and>
         cleared fl (d_flags d) AND FPI_IMAGE_H_FLIPPED fl = 0 \<and>
         cleared fl (d_flags d) AND FPI_IMAGE_V_FLIPPED fl = 0 \<and>
         cleared fl (d_flags d) AND FPI_IMAGE_COLORS_INVERTED fl = 0 \<and>
         hflip bytes (int w) (int ht) = Some (flip_horizontal w ht bytes) \<and>
         vflip bytes (int w) (int ht) = Some (flip_vertical w ht bytes) \<and>
         invert_colors bytes (int w) (int ht) = Some (invert_bytes bytes) \<and>
         (\<forall>i < length bytes. invert_bytes bytes ! i = 255 - bytes ! i)"
proof -
  let ?p = "d_image d"
  let ?H = "d_flags d AND FPI_IMAGE_H_FLIPPED fl \<noteq> 0"
  let ?V = "d_flags d AND FPI_IMAGE_V_FLIPPED fl \<noteq> 0"
  let ?C = "d_flags d AND FPI_IMAGE_COLORS_INVERTED fl \<noteq> 0"
  define b1 where "b1 = (if ?H then flip_horizontal w ht bytes else bytes)"
  define b2 where "b2 = (if ?V then flip_vertical w ht b1 else b1)"
  define b3 where "b3 = (if ?C then invert_bytes b2 else b2)"
  have l1: "length b1 = w * ht"
    by (simp add: b1_def len length_flip_horizontal)
  have lv: "length (flip_vertical w ht b1) = w * ht"
    using length_flip_vertical [of b1 ht w] l1 by (simp add: mult.commute)
  have l2: "length b2 = w * ht"
    using lv l1 by (simp add: b2_def)
  have s1: "\<exists>h'. (if ?H then on_buffer (\<lambda>b. hflip b (d_width d) (d_height d)) h ?p else Some h) = Some h' \<and>
           deref h' ?p = Some (if ?H then flip_horizontal w ht bytes else bytes) \<and> length h' = length h \<and>
           (\<forall>a. Some a \<noteq> ?p \<longrightarrow> block_at h' a = block_at h a)"
    by (rule norm_step [OF p]) (simp_all add: dw dh hflip_eq [OF len mx] length_flip_horizontal len)
  then obtain h1 where h1: "(if ?H then on_buffer (\<lambda>b. hflip b (d_width d) (d_height d)) h ?p else Some h) = Some h1"
    "deref h1 ?p = Some b1" "length h1 = length h"
    "\<forall>a. Some a \<noteq> ?p \<longrightarrow> block_at h1 a = block_at h a"
    unfolding b1_def by blast
  have s2: "\<exists>h'. (if ?V then on_buffer (\<lambda>b. vflip b (d_width d) (d_height d)) h1 ?p else Some h1) = Some h' \<and>
           deref h' ?p = Some (if ?V then flip_vertical w ht b1 else b1) \<and> length h' = length h1 \<and>
           (\<forall>a. Some a \<noteq> ?p \<longrightarrow> block_at h' a = block_at h1 a)"
    by (rule norm_step [OF h1(2)]) (simp_all add: dw dh vflip_eq [OF l1 mx] lv l1)
  then obtain h2 where h2: "(if ?V then on_buffer (\<lambda>b. vflip b (d_width d) (d_height d)) h1 ?p else Some h1) = Some h2"
    "deref h2 ?p = Some b2" "length h2 = length h1"
    "\<forall>a. Some a \<noteq> ?p \<longrightarrow> block_at h2 a = block_at h1 a"
    unfolding b2_def by blast
  have s3: "\<exists>h'. (if ?C then on_buffer (\<lambda>b. invert_colors b (d_width d) (d_height d)) h2 ?p else Some h2) = Some h' \<and>
           deref h' ?p = Some (if ?C then invert_bytes b2 else b2) \<and> length h' = length h2 \<and>
           (\<forall>a. Some a \<noteq> ?p \<longrightarrow> block_at h' a = block_at h2 a)"
    by (rule norm_step [OF h2(2)]) (simp_all add: dw dh invert_colors_eq [OF l2 mx] length_invert_bytes)
  then obtain h3 where h3: "(if ?C then on_buffer (\<lambda>b. invert_colors b (d_width d) (d_height d)) h2 ?p else Some h2) = Some h3"
    "deref h3 ?p = Some b3" "length h3 = length h2"
    "\<forall>a. Some a \<noteq> ?p \<longrightarrow> block_at h3 a = block_at h2 a"
    unfolding b3_def by blast
  have run: "normalize_image fl h d = Some (h3, d\<lparr>d_flags := cleared fl (d_flags d)\<rparr>)"
    unfolding normalize_image_def cleared_def h1(1) h2(1) h3(1) Option.bind.simps ..
  have nb: "normalized_bytes fl (d_flags d) w ht bytes = b3"
    by (simp add: normalized_bytes_def b3_def b2_def b1_def Let_def)
  have frame: "\<forall>a. Some a \<noteq> ?p \<longrightarrow> block_at h3 a = block_at h a"
    using h1(4) h2(4) h3(4) by simp
  have l: "length h3 = length h" using h1(3) h2(3) h3(3) by simp
  have first: "\<exists>h'. normalize_image fl h d = Some (h', d\<lparr>d_flags := cleared fl (d_flags d)\<rparr>) \<and>
            deref h' (d_image d) = Some (normalized_bytes fl (d_flags d) w ht bytes) \<and>
            length h' = length h \<and>
            (\<forall>a. Some a \<noteq> d_image d \<longrightarrow> block_at h' a = block_at h a)"
    by (rule exI [of _ h3], intro conjI) (rule run h3(2) [folded nb] l frame)+
  show ?thesis
    by (intro conjI first cleared_bits hflip_eq [OF len mx] vflip_eq [OF len mx]
        invert_colors_eq [OF len mx]) (simp add: nth_invert_bytes)
qed

lemma w_norm: "normalize_image
     \<lparr>FPI_IMAGE_V_FLIPPED = 1, FPI_IMAGE_H_FLIPPED = 2, FPI_IMAGE_COLORS_INVERTED = 4\<rparr>
     [Some [1, 2, 3, 4, 5, 6]]
     \<lparr>d_minutiae = None, d_width = 3, d_height = 2, d_ppmm = 0, d_flags = 14,
        d_image = Some 0, d_binarized = None\<rparr>
   = Some ([Some [252, 253, 254, 249, 250, 251]],
       \<lparr>d_minutiae = None, d_width = 3, d_height = 2, d_ppmm = 0, d_flags = 8,
        d_image = Some 0, d_binarized = None\<rparr>)"
  by code_simp

theorem normalization_applies_each_set_flag_once_witness:
  "deref [Some [252, 253, 254, 249, 250, 251]] (Some 0) =
     Some (normalized_bytes
       \<lparr>FPI_IMAGE_V_FLIPPED = 1, FPI_IMAGE_H_FLIPPED = 2, FPI_IMAGE_COLORS_INVERTED = 4\<rparr>
       14 3 2 [1, 2, 3, 4, 5, 6]) \<and>
   hflip [1, 2, 3, 4, 5, 6] 3 2 = Some (flip_horizontal 3 2 [1, 2, 3, 4, 5, 6]) \<and>
   invert_bytes [1, 2, 3, 4, 5, 6] ! 2 = 252"
proof -
  let ?fl = "\<lparr>FPI_IMAGE_V_FLIPPED = 1, FPI_IMAGE_H_FLIPPED = 2, FPI_IMAGE_COLORS_INVERTED = 4\<rparr>"
  let ?h = "[Some [1, 2, 3, 4, 5, 6 :: guint8]]"
  let ?d = "\<lparr>d_minutiae = None, d_width = 3, d_height = 2, d_ppmm = 0, d_flags = 14,
        d_image = Some 0, d_binarized = None\<rparr>"
  have a1: "deref ?h (d_image ?d) = Some [1, 2, 3, 4, 5, 6]"
    by (simp add: deref_def block_at_def)
  have a2: "length [1, 2, 3, 4, 5, 6 :: guint8] = 3 * 2" by simp
  have a3: "int (3 * 2) \<le> INT_MAX" by (simp add: INT_MAX_def)
  have a4: "d_width ?d = int 3" "d_height ?d = int 2" by simp_all
  note t = normalization_applies_each_set_flag_once [OF a1 a2 a3 a4, of ?fl]
  from t obtain h' where n: "normalize_image ?fl ?h ?d = Some (h', ?d\<lparr>d_flags := cleared ?fl (d_flags ?d)\<rparr>)"
    and b: "deref h' (d_image ?d) = Some (normalized_bytes ?fl (d_flags ?d) 3 2 [1, 2, 3, 4, 5, 6])"
    by blast
  from n w_norm have "h' = [Some [252, 253, 254, 249, 250, 251]]" by simp
  with b have 1: "deref [Some [252, 253, 254, 249, 250, 251]] (Some 0) =
     Some (normalized_bytes ?fl 14 3 2 [1, 2, 3, 4, 5, 6])"
    by simp
  from t have 2: "hflip [1, 2, 3, 4, 5, 6] 3 2 = Some (flip_horizontal 3 2 [1, 2, 3, 4, 5, 6])"
    by simp
  from t have "\<forall>i < length [1, 2, 3, 4, 5, 6 :: guint8]. invert_bytes [1, 2, 3, 4, 5, 6] ! i = 255 - [1, 2, 3, 4, 5, 6] ! i"
    by blast
  then have "invert_bytes [1, 2, 3, 4, 5, 6] ! 2 = 255 - [1, 2, 3, 4, 5, 6 :: guint8] ! 2"
    by simp
  then have 3: "invert_bytes [1, 2, 3, 4, 5, 6] ! 2 = 252" by simp
  from 1 2 3 show ?thesis by blast
qed

text \<open>
  Without the bound the claim fails: for a 46341 by 46341 work item with the inversion
  flag set, \<^verbatim>\<open>width * height\<close> in \<^verbatim>\<open>invert_colors\<close> exceeds \<open>INT_MAX\<close> and the
  normalisation has no defined result.
\<close>

theorem normalization_of_large_image_undefined:
  "length (replicate (46341 * 46341) (0 :: guint8)) = 46341 * 46341 \<and>
   deref [Some (replicate (46341 * 46341) 0)] (Some 0) = Some (replicate (46341 * 46341) 0) \<and>
   normalize_image
     \<lparr>FPI_IMAGE_V_FLIPPED = 1, FPI_IMAGE_H_FLIPPED = 2, FPI_IMAGE_COLORS_INVERTED = 4\<rparr>
     [Some (replicate (46341 * 46341) 0)]
     \<lparr>d_minutiae = None, d_width = 46341, d_height = 46341, d_ppmm = 0, d_flags = 4,
        d_image = Some 0, d_binarized = None\<rparr>
   = None"
proof -
  have g: "gint_of (46341 * 46341) = None"
    by (simp add: gint_of_def INT_MAX_def)
  have i: "invert_colors (replicate (46341 * 46341) 0) 46341 46341 = None"
    unfolding invert_colors_def g by (simp only: Option.bind.simps)
  have d: "deref [Some (replicate (46341 * 46341) 0)] (Some 0) = Some (replicate (46341 * 46341) (0 :: guint8))"
    by (simp add: deref_def block_at_def)
  have o: "on_buffer (\<lambda>b. invert_colors b 46341 46341) [Some (replicate (46341 * 46341) 0)] (Some 0) = None"
    unfolding on_buffer_def d Option.bind.simps i ..
  have f: "(4 :: guint) AND 2 = 0" "(4 :: guint) AND 1 = 0" "(4 :: guint) AND 4 \<noteq> 0"
    by simp_all
  have "normalize_image
     \<lparr>FPI_IMAGE_V_FLIPPED = 1, FPI_IMAGE_H_FLIPPED = 2, FPI_IMAGE_COLORS_INVERTED = 4\<rparr>
     [Some (replicate (46341 * 46341) 0)]
     \<lparr>d_minutiae = None, d_width = 46341, d_height = 46341, d_ppmm = 0, d_flags = 4,
        d_image = Some 0, d_binarized = None\<rparr> = None"
    unfolding normalize_image_def
    by (simp only: FpiImageFlags.simps DetectMinutiaeData.simps f if_True if_False simp_thms
        Option.bind.simps o)
  with d show ?thesis by (simp only: length_replicate simp_thms)
qed


subsection \<open>The two error domains\<close>






subsection \<open>Further properties of the metrics and of the commit\<close>

text \<open>
  Up to 33025 bytes the \<^verbatim>\<open>int\<close> accumulator of \<^verbatim>\<open>fpi_mean_sq_diff_norm\<close> cannot overflow:
  the function returns the mean of the squared differences, 0 for a buffer compared with
  itself, and the square of the difference for two buffers that differ by the same
  amount at every byte.
\<close>

theorem fpi_mean_sq_diff_norm_small_buffers:
  assumes "1 \<le> n" "n \<le> 33025" "n \<le> length buf1" "n \<le> length buf2"
  shows "fpi_mean_sq_diff_norm buf1 buf2 (int n) = Some (mean_square_diff buf1 buf2 n) \<and>
         fpi_mean_sq_diff_norm buf1 buf1 (int n) = Some 0 \<and>
         ((\<forall>i < n. uint (buf1 ! i) - uint (buf2 ! i) = delta) \<longrightarrow>
            fpi_mean_sq_diff_norm buf1 buf2 (int n) = Some (delta\<^sup>2))"
proof (intro conjI impI)
  show e: "fpi_mean_sq_diff_norm buf1 buf2 (int n) = Some (mean_square_diff buf1 buf2 n)"
    by (rule fpi_mean_sq_diff_norm_bounded [OF assms(1,3,4,2)])
  have "fpi_mean_sq_diff_norm buf1 buf1 (int n) = Some (mean_square_diff buf1 buf1 n)"
    by (rule fpi_mean_sq_diff_norm_bounded [OF assms(1,3,3,2)])
  then show "fpi_mean_sq_diff_norm buf1 buf1 (int n) = Some 0"
    by (simp add: mean_square_diff_def sq_diff_total_def)
  assume c: "\<forall>i < n. uint (buf1 ! i) - uint (buf2 ! i) = delta"
  have "sq_diff_total buf1 buf2 n = (\<Sum>i<n. delta\<^sup>2)"
    unfolding sq_diff_total_def by (rule sum.cong) (simp_all add: c)
  then have "sq_diff_total buf1 buf2 n = int n * delta\<^sup>2" by simp
  then have "mean_square_diff buf1 buf2 n = delta\<^sup>2"
    using assms(1) by (simp add: mean_square_diff_def)
  with e show "fpi_mean_sq_diff_norm buf1 buf2 (int n) = Some (delta\<^sup>2)" by simp
qed

theorem fpi_mean_sq_diff_norm_small_buffers_witness:
  "fpi_mean_sq_diff_norm [10, 20, 30] [7, 17, 27] 3 = Some 9 \<and>
   fpi_mean_sq_diff_norm [10, 20, 30] [10, 20, 30] 3 = Some 0"
proof -
  have c: "\<forall>i < 3. uint ([10, 20, 30 :: guint8] ! i) - uint ([7, 17, 27 :: guint8] ! i) = 3"
  proof (intro allI impI)
    fix i :: nat
    assume "i < 3"
    then have "i = 0 \<or> i = 1 \<or> i = 2" by linarith
    then show "uint ([10, 20, 30 :: guint8] ! i) - uint ([7, 17, 27 :: guint8] ! i) = 3"
      by auto
  qed
  have "1 \<le> (3 :: nat)" "(3 :: nat) \<le> 33025" "3 \<le> length [10, 20, 30 :: guint8]"
    "3 \<le> length [7, 17, 27 :: guint8]" by simp_all
  note t = fpi_mean_sq_diff_norm_small_buffers [OF this, of 3]
  from t have 1: "fpi_mean_sq_diff_norm [10, 20, 30] [10, 20, 30] (int 3) = Some 0"
    by blast
  from t c have "fpi_mean_sq_diff_norm [10, 20, 30] [7, 17, 27] (int 3) = Some (3\<^sup>2)"
    by blast
  then have 2: "fpi_mean_sq_diff_norm [10, 20, 30] [7, 17, 27] (int 3) = Some 9"
    by simp
  from 1 2 show ?thesis by simp
qed

theorem commit_does_not_look_at_the_status_witness:
  "minutiae \<lparr>width = 2, height = 2, ppmm = 0, flags = 0, data = Some 1, binarized = None,
        minutiae = Some []\<rparr> \<noteq> None"
proof -
  have run: "detect_minutiae_task
     \<lparr>FPI_IMAGE_V_FLIPPED = 1, FPI_IMAGE_H_FLIPPED = 2, FPI_IMAGE_COLORS_INVERTED = 4\<rparr>
     (\<lambda>b w h p. \<lparr>e_status = 1, e_bdata = None, e_minutiae = Some \<lparr>m_num = 0, m_list = []\<rparr>\<rparr>)
     [Some [1, 2, 3, 4]]
     \<lparr>width = 2, height = 2, ppmm = 0, flags = 4, data = Some 0, binarized = None, minutiae = None\<rparr>
     None
   = Some ([None, Some [254, 253, 252, 251]],
       \<lparr>width = 2, height = 2, ppmm = 0, flags = 0, data = Some 1, binarized = None,
        minutiae = Some []\<rparr>, G_IO_ERROR_FAILED 1)"
    by code_simp
  have "(None :: bool option) \<noteq> Some True" by simp
  from commit_does_not_look_at_the_status [OF run this] show ?thesis .
qed

text \<open>
  When the task returns \<^verbatim>\<open>TRUE\<close> and is not cancelled, and the extraction gives a
  binarized buffer whenever its status is 0, the committed image has both a binarized
  buffer and minutiae.
\<close>

theorem successful_detection_commits_both:
  assumes task: "detect_minutiae_task fl gm h self c = Some (h4, self', Returned_TRUE)"
    and c: "c \<noteq> Some True"
    and contract: "\<And>b w ht p. e_status (gm b w ht p) = 0 \<Longrightarrow> e_bdata (gm b w ht p) \<noteq> None"
  shows "binarized self' \<noteq> None \<and> minutiae self' \<noteq> None"
proof -
  obtain h1 d h2 d2 h3 d3 where "fp_image_detect_minutiae h self = Some (h1, d)"
    and thread: "fp_image_detect_minutiae_thread_func fl gm h1 d = Some (h2, d2, Returned_TRUE)"
    and cb: "fp_image_detect_minutiae_cb h2 self d2 c = Some (h3, self', d3)"
    and "fp_image_detect_minutiae_free h3 d3 = Some h4"
    by (rule task_cases [OF task])
  obtain hn dn bytes and e :: extraction where "normalize_image fl h1 d = Some (hn, dn)"
    and "deref hn (d_image dn) = Some bytes"
    and e: "e = gm bytes (d_width dn) (d_height dn) (d_ppmm dn)"
    and r: "Returned_TRUE = (if e_status e \<noteq> 0 then G_IO_ERROR_FAILED (e_status e) else Returned_TRUE)"
    and "d_minutiae d2 = e_minutiae e" and "d_image d2 = d_image dn" and "d_flags d2 = d_flags dn"
    and bin: "(e_bdata e = None \<and> h2 = hn \<and> d_binarized d2 = None) \<or>
     (\<exists>bd. e_bdata e = Some bd \<and> h2 = hn @ [Some bd] \<and> d_binarized d2 = Some (length hn))"
    by (rule thread_func_cases [OF thread])
  from r have "e_status e = 0" by (simp split: if_splits)
  then have "e_bdata e \<noteq> None" unfolding e by (rule contract)
  with bin have b: "d_binarized d2 \<noteq> None" by auto
  obtain g1 ms arr where "g_free h2 (data self) = Some g1" "g_free g1 (binarized self) = Some h3"
    "d_minutiae d2 = Some ms"
    "self' = self\<lparr>flags := d_flags d2, data := d_image d2, binarized := d_binarized d2,
                 minutiae := Some arr\<rparr>"
    "d3 = d2\<lparr>d_image := None, d_binarized := None, d_minutiae := Some (ms\<lparr>m_num := 0\<rparr>)\<rparr>"
    by (rule cb_commit_cases [OF cb c])
  then show ?thesis using b by simp
qed

theorem successful_detection_commits_both_witness:
  "binarized \<lparr>width = 3, height = 2, ppmm = 0, flags = 0, data = Some 1, binarized = Some 2,
        minutiae = Some [(0, 1)]\<rparr> \<noteq> None \<and>
   minutiae \<lparr>width = 3, height = 2, ppmm = 0, flags = 0, data = Some 1, binarized = Some 2,
        minutiae = Some [(0, 1)]\<rparr> \<noteq> None"
proof -
  have "(None :: bool option) \<noteq> Some True" by simp
  from successful_detection_commits_both [OF w_task this] show ?thesis by simp
qed

end
